theory Spec2Isabelle
  imports Main "HOL-Library.Code_Target_Nat"
begin

section \<open>Storage, element types and outcomes\<close>

text \<open>
  The header \<^verbatim>\<open>vector.h\<close> defines \<^verbatim>\<open>RawMemory<T>\<close>, a block of storage for
  \<^verbatim>\<open>capacity_\<close> objects of type \<^verbatim>\<open>T\<close> that never constructs or destroys an object, and
  \<^verbatim>\<open>Vector<T>\<close>, which owns one such block and the count \<^verbatim>\<open>size_\<close> of objects it
  keeps alive there.

  A \<^verbatim>\<open>RawMemory\<close> is the list of the \<^verbatim>\<open>capacity_\<close> slots it counts: the capacity is
  the length of the list. A slot either is storage that holds no object (\<open>Raw\<close>), or
  holds a live object with a value (\<open>Live x\<close>), or lies past the end of the storage
  that \<^verbatim>\<open>operator new\<close> returned (\<open>Beyond\<close>). The last kind exists because
  \<^verbatim>\<open>Allocate(n)\<close> asks for \<^verbatim>\<open>n * sizeof(T)\<close> bytes, a product computed in
  \<^verbatim>\<open>size_t\<close>, taken here to have 64 bits: when the product wraps, the storage is
  shorter than \<^verbatim>\<open>capacity_\<close> says. The members \<^verbatim>\<open>data_\<close> and \<^verbatim>\<open>size_\<close> are the
  fields \<open>m_data\<close> and \<open>m_size\<close>. Sizes are natural numbers; an argument of type
  \<^verbatim>\<open>size_t\<close> is a number below \<open>2^64\<close>, and the product \<^verbatim>\<open>size_ * 2\<close> of the
  growing paths is taken modulo \<open>2^64\<close> as well.
\<close>

datatype 'a slot = Raw | Live 'a | Beyond

text \<open>
  What the container uses of its element type \<^verbatim>\<open>T\<close> and of the program around it:
  the two traits tested by \<^verbatim>\<open>if constexpr\<close>, the constructors and assignment
  operators, \<^verbatim>\<open>sizeof(T)\<close>, and \<^verbatim>\<open>operator new\<close>. \<open>None\<close> means that the call
  throws; a call that throws leaves its operands as they were. A move returns the
  object built (or the new value of the target) and the state its source is left in.
  The default constructor takes no argument, so whether it throws can only depend on
  the calls made before: \<open>value_ctor T k\<close> is the result of the call number \<open>k\<close>,
  counted from 0, that one run of \<^verbatim>\<open>std::uninitialized_value_construct_n\<close> makes.
  \<open>operator_new T count\<close> says whether \<^verbatim>\<open>operator new(count)\<close> returns storage of
  \<open>count\<close> bytes; otherwise it throws \<^verbatim>\<open>std::bad_alloc\<close>. Destructors do not throw.
  For a type with \<open>nothrow_move_constructible\<close> the field \<open>move_ctor\<close> is expected never
  to be \<open>None\<close>, and \<open>sizeof\<close> is expected to be positive.
\<close>

record 'a elem_type =
  nothrow_move_constructible :: bool
  copy_constructible :: bool
  value_ctor :: "nat \<Rightarrow> 'a option"
  copy_ctor :: "'a \<Rightarrow> 'a option"
  move_ctor :: "'a \<Rightarrow> ('a \<times> 'a) option"
  copy_assign :: "'a \<Rightarrow> 'a \<Rightarrow> 'a option"
  move_assign :: "'a \<Rightarrow> 'a \<Rightarrow> ('a \<times> 'a) option"
  sizeof :: nat
  operator_new :: "nat \<Rightarrow> bool"

text \<open>
  A call either returns, or leaves by an exception, or stops the program at a failed
  \<^verbatim>\<open>assert\<close>, or breaks the discipline of object lifetime: a destructor is run on a
  slot that holds no object or an object is read from such a slot, which is undefined
  behaviour, or an object is constructed over a live one, or outside the storage, or a
  block is released with a live object in it, which is then lost without its
  destructor. The model follows such a run no further.
\<close>

datatype violation =
    Destroy_No_Object
  | Read_No_Object
  | Construct_Over_Object
  | Construct_Outside
  | Release_With_Objects

datatype ('r, 'e) outcome = Returns 'r | Throws 'e | Aborts | Violation violation

record 'a Vector =
  m_data :: "'a slot list"
  m_size :: nat

subsection \<open>Single slots\<close>

definition slot_at :: "'a slot list \<Rightarrow> nat \<Rightarrow> 'a slot" where
  "slot_at buf i = (if i < length buf then buf ! i else Raw)"

definition obj_at :: "'a slot list \<Rightarrow> nat \<Rightarrow> violation + 'a" where
  "obj_at buf i =
     (case slot_at buf i of
        Raw \<Rightarrow> Inl Read_No_Object
      | Live x \<Rightarrow> Inr x
      | Beyond \<Rightarrow> Inl Read_No_Object)"

definition construct_at :: "'a slot list \<Rightarrow> nat \<Rightarrow> 'a \<Rightarrow> violation + 'a slot list" where
  "construct_at buf i x =
     (if i < length buf
      then (case buf ! i of
              Raw \<Rightarrow> Inr (buf[i := Live x])
            | Live y \<Rightarrow> Inl Construct_Over_Object
            | Beyond \<Rightarrow> Inl Construct_Outside)
      else Inl Construct_Outside)"

definition destroy_at :: "'a slot list \<Rightarrow> nat \<Rightarrow> violation + 'a slot list" where
  "destroy_at buf i =
     (case slot_at buf i of
        Raw \<Rightarrow> Inl Destroy_No_Object
      | Live x \<Rightarrow> Inr (buf[i := Raw])
      | Beyond \<Rightarrow> Inl Destroy_No_Object)"

primrec destroy_n :: "'a slot list \<Rightarrow> nat \<Rightarrow> nat \<Rightarrow> violation + 'a slot list" where
  "destroy_n buf first 0 = Inr buf"
| "destroy_n buf first (Suc n) =
     (case destroy_at buf first of
        Inl k \<Rightarrow> Inl k
      | Inr buf' \<Rightarrow> destroy_n buf' (Suc first) n)"

subsection \<open>RawMemory\<close>

text \<open>
  \<^verbatim>\<open>Allocate(n)\<close> returns no storage for \<open>n = 0\<close> and otherwise what
  \<^verbatim>\<open>operator new(n * sizeof(T))\<close> returns, the product being taken modulo \<open>2^64\<close>.
  The result here is the number of objects of type \<^verbatim>\<open>T\<close> the storage has room for,
  and \<open>None\<close> when \<^verbatim>\<open>operator new\<close> throws. The constructor \<^verbatim>\<open>RawMemory(capacity)\<close>
  keeps that storage and sets \<^verbatim>\<open>capacity_\<close> to its argument, whatever the storage
  holds.
\<close>

definition Allocate :: "'a elem_type \<Rightarrow> nat \<Rightarrow> nat option" where
  "Allocate T n =
     (if n \<noteq> 0
      then (if operator_new T (n * sizeof T mod 2 ^ 64)
            then Some ((n * sizeof T mod 2 ^ 64) div sizeof T)
            else None)
      else Some 0)"

definition RawMemory :: "'a elem_type \<Rightarrow> nat \<Rightarrow> 'a slot list option" where
  "RawMemory T capacity =
     (case Allocate T capacity of
        None \<Rightarrow> None
      | Some k \<Rightarrow> Some (replicate (min k capacity) Raw @ replicate (capacity - k) Beyond))"

definition is_Live :: "'a slot \<Rightarrow> bool" where
  "is_Live s = (case s of Raw \<Rightarrow> False | Live x \<Rightarrow> True | Beyond \<Rightarrow> False)"

definition is_Raw :: "'a slot \<Rightarrow> bool" where
  "is_Raw s = (case s of Raw \<Rightarrow> True | Live x \<Rightarrow> False | Beyond \<Rightarrow> False)"

text \<open>
  \<^verbatim>\<open>~RawMemory\<close> hands the block back without running a destructor: an object still
  alive in it is lost. The rest of the call is the second argument.
\<close>

definition Deallocate :: "'a slot list \<Rightarrow> ('r, 'e) outcome \<Rightarrow> ('r, 'e) outcome" where
  "Deallocate buf rest = (if list_ex is_Live buf then Violation Release_With_Objects else rest)"

subsection \<open>The algorithms of the standard library on slots\<close>

text \<open>
  The \<^verbatim>\<open>uninitialized_\<close> algorithms construct into raw storage from \<open>cur\<close> on; when a
  constructor throws they destroy what they have built, \<open>[d_first, cur)\<close>, and rethrow.
  In \<open>value_construct_loop\<close> the object for slot \<open>cur\<close> comes from the call number
  \<open>cur - d_first\<close> of the default constructor.
\<close>

definition unwind :: "'a slot list \<Rightarrow> nat \<Rightarrow> nat \<Rightarrow> ('a slot list, 'a slot list) outcome" where
  "unwind dst d_first cur =
     (case destroy_n dst d_first (cur - d_first) of
        Inl k \<Rightarrow> Violation k
      | Inr dst' \<Rightarrow> Throws dst')"

primrec value_construct_loop ::
  "'a elem_type \<Rightarrow> 'a slot list \<Rightarrow> nat \<Rightarrow> nat \<Rightarrow> nat \<Rightarrow> ('a slot list, 'a slot list) outcome" where
  "value_construct_loop T dst d_first cur 0 = Returns dst"
| "value_construct_loop T dst d_first cur (Suc n) =
     (case value_ctor T (cur - d_first) of
        None \<Rightarrow> unwind dst d_first cur
      | Some y \<Rightarrow>
          (case construct_at dst cur y of
             Inl k \<Rightarrow> Violation k
           | Inr dst' \<Rightarrow> value_construct_loop T dst' d_first (Suc cur) n))"

definition uninitialized_value_construct_n ::
  "'a elem_type \<Rightarrow> 'a slot list \<Rightarrow> nat \<Rightarrow> nat \<Rightarrow> ('a slot list, 'a slot list) outcome" where
  "uninitialized_value_construct_n T dst d_first n = value_construct_loop T dst d_first d_first n"

primrec copy_construct_loop ::
  "'a elem_type \<Rightarrow> 'a slot list \<Rightarrow> nat \<Rightarrow> 'a slot list \<Rightarrow> nat \<Rightarrow> nat \<Rightarrow> nat
   \<Rightarrow> ('a slot list, 'a slot list) outcome" where
  "copy_construct_loop T src first dst d_first cur 0 = Returns dst"
| "copy_construct_loop T src first dst d_first cur (Suc n) =
     (case obj_at src first of
        Inl k \<Rightarrow> Violation k
      | Inr x \<Rightarrow>
          (case copy_ctor T x of
             None \<Rightarrow> unwind dst d_first cur
           | Some y \<Rightarrow>
               (case construct_at dst cur y of
                  Inl k \<Rightarrow> Violation k
                | Inr dst' \<Rightarrow> copy_construct_loop T src (Suc first) dst' d_first (Suc cur) n)))"

definition uninitialized_copy_n ::
  "'a elem_type \<Rightarrow> 'a slot list \<Rightarrow> nat \<Rightarrow> nat \<Rightarrow> 'a slot list \<Rightarrow> nat
   \<Rightarrow> ('a slot list, 'a slot list) outcome" where
  "uninitialized_copy_n T src first n dst d_first = copy_construct_loop T src first dst d_first d_first n"

text \<open>Moving changes the source block as well, so both blocks are returned.\<close>

primrec move_construct_loop ::
  "'a elem_type \<Rightarrow> 'a slot list \<Rightarrow> nat \<Rightarrow> 'a slot list \<Rightarrow> nat \<Rightarrow> nat \<Rightarrow> nat
   \<Rightarrow> ('a slot list \<times> 'a slot list, 'a slot list \<times> 'a slot list) outcome" where
  "move_construct_loop T src first dst d_first cur 0 = Returns (src, dst)"
| "move_construct_loop T src first dst d_first cur (Suc n) =
     (case obj_at src first of
        Inl k \<Rightarrow> Violation k
      | Inr x \<Rightarrow>
          (case move_ctor T x of
             None \<Rightarrow>
               (case destroy_n dst d_first (cur - d_first) of
                  Inl k \<Rightarrow> Violation k
                | Inr dst' \<Rightarrow> Throws (src, dst'))
           | Some (y, x') \<Rightarrow>
               (case construct_at dst cur y of
                  Inl k \<Rightarrow> Violation k
                | Inr dst' \<Rightarrow>
                    move_construct_loop T (src[first := Live x']) (Suc first) dst' d_first (Suc cur) n)))"

definition uninitialized_move_n ::
  "'a elem_type \<Rightarrow> 'a slot list \<Rightarrow> nat \<Rightarrow> nat \<Rightarrow> 'a slot list \<Rightarrow> nat
   \<Rightarrow> ('a slot list \<times> 'a slot list, 'a slot list \<times> 'a slot list) outcome" where
  "uninitialized_move_n T src first n dst d_first = move_construct_loop T src first dst d_first d_first n"

text \<open>
  The choice every reallocation makes:
  \<^verbatim>\<open>if constexpr (is_nothrow_move_constructible_v<T> || !is_copy_constructible_v<T>)\<close>
  moves, the other branch copies.
\<close>

definition relocates_by_move :: "'a elem_type \<Rightarrow> bool" where
  "relocates_by_move T = (nothrow_move_constructible T \<or> \<not> copy_constructible T)"

definition relocate_n ::
  "'a elem_type \<Rightarrow> 'a slot list \<Rightarrow> nat \<Rightarrow> nat \<Rightarrow> 'a slot list \<Rightarrow> nat
   \<Rightarrow> ('a slot list \<times> 'a slot list, 'a slot list \<times> 'a slot list) outcome" where
  "relocate_n T src first n dst d_first =
     (if relocates_by_move T then uninitialized_move_n T src first n dst d_first
      else (case uninitialized_copy_n T src first n dst d_first of
              Returns dst' \<Rightarrow> Returns (src, dst')
            | Throws dst' \<Rightarrow> Throws (src, dst')
            | Aborts \<Rightarrow> Aborts
            | Violation k \<Rightarrow> Violation k))"

text \<open>
  Assignments need a live object on both sides. \<^verbatim>\<open>std::copy\<close> assigns from another
  block front to back; \<^verbatim>\<open>std::move\<close> and \<^verbatim>\<open>std::move_backward\<close> move-assign inside one
  block, front to back and back to front. None of them cleans up after an exception.
\<close>

primrec copy_range ::
  "'a elem_type \<Rightarrow> 'a slot list \<Rightarrow> nat \<Rightarrow> nat \<Rightarrow> 'a slot list \<Rightarrow> nat
   \<Rightarrow> ('a slot list, 'a slot list) outcome" where
  "copy_range T src first 0 dst d_first = Returns dst"
| "copy_range T src first (Suc n) dst d_first =
     (case obj_at src first of
        Inl k \<Rightarrow> Violation k
      | Inr x \<Rightarrow>
          (case obj_at dst d_first of
             Inl k \<Rightarrow> Violation k
           | Inr y \<Rightarrow>
               (case copy_assign T y x of
                  None \<Rightarrow> Throws dst
                | Some y' \<Rightarrow> copy_range T src (Suc first) n (dst[d_first := Live y']) (Suc d_first))))"

definition move_assign_at ::
  "'a elem_type \<Rightarrow> 'a slot list \<Rightarrow> nat \<Rightarrow> nat \<Rightarrow> ('a slot list, 'a slot list) outcome" where
  "move_assign_at T buf d s =
     (case obj_at buf s of
        Inl k \<Rightarrow> Violation k
      | Inr x \<Rightarrow>
          (case obj_at buf d of
             Inl k \<Rightarrow> Violation k
           | Inr y \<Rightarrow>
               (case move_assign T y x of
                  None \<Rightarrow> Throws buf
                | Some (y', x') \<Rightarrow> Returns (buf[s := Live x', d := Live y']))))"

primrec move_range ::
  "'a elem_type \<Rightarrow> 'a slot list \<Rightarrow> nat \<Rightarrow> nat \<Rightarrow> nat \<Rightarrow> ('a slot list, 'a slot list) outcome" where
  "move_range T buf first 0 d_first = Returns buf"
| "move_range T buf first (Suc n) d_first =
     (case move_assign_at T buf d_first first of
        Returns buf' \<Rightarrow> move_range T buf' (Suc first) n (Suc d_first)
      | Throws buf' \<Rightarrow> Throws buf'
      | Aborts \<Rightarrow> Aborts
      | Violation k \<Rightarrow> Violation k)"

text \<open>
  \<open>move_backward T buf first n d_last\<close> is \<^verbatim>\<open>std::move_backward(first, first + n, d_last)\<close>:
  the last source \<open>first + n - 1\<close> goes to \<open>d_last - 1\<close> first.
\<close>

primrec move_backward ::
  "'a elem_type \<Rightarrow> 'a slot list \<Rightarrow> nat \<Rightarrow> nat \<Rightarrow> nat \<Rightarrow> ('a slot list, 'a slot list) outcome" where
  "move_backward T buf first 0 d_last = Returns buf"
| "move_backward T buf first (Suc n) d_last =
     (if d_last = 0 then Violation Read_No_Object
      else (case move_assign_at T buf (d_last - 1) (first + n) of
              Returns buf' \<Rightarrow> move_backward T buf' first n (d_last - 1)
            | Throws buf' \<Rightarrow> Throws buf'
            | Aborts \<Rightarrow> Aborts
            | Violation k \<Rightarrow> Violation k))"

section \<open>Vector\<close>

definition Size :: "'a Vector \<Rightarrow> nat" where
  "Size v = m_size v"

definition Capacity :: "'a Vector \<Rightarrow> nat" where
  "Capacity v = length (m_data v)"

text \<open>\<^verbatim>\<open>operator[]\<close>: \<^verbatim>\<open>assert(index < size_)\<close>, then the object in that slot.\<close>

definition subscript :: "'a Vector \<Rightarrow> nat \<Rightarrow> ('a, unit) outcome" where
  "subscript v index =
     (if index < m_size v
      then (case obj_at (m_data v) index of Inl k \<Rightarrow> Violation k | Inr x \<Rightarrow> Returns x)
      else Aborts)"

subsection \<open>Construction, destruction, assignment\<close>

definition Vector_default :: "'a Vector" where
  "Vector_default = \<lparr>m_data = [], m_size = 0\<rparr>"

text \<open>
  A constructor that throws leaves no vector behind; its block is released. The
  member \<^verbatim>\<open>data_\<close> is initialised first, so an allocation that fails ends the call
  before any object is built.
\<close>

definition Vector_sized :: "'a elem_type \<Rightarrow> nat \<Rightarrow> ('a Vector, unit) outcome" where
  "Vector_sized T n =
     (case RawMemory T n of
        None \<Rightarrow> Throws ()
      | Some data \<Rightarrow>
          (case uninitialized_value_construct_n T data 0 n of
             Returns buf \<Rightarrow> Returns \<lparr>m_data = buf, m_size = n\<rparr>
           | Throws buf \<Rightarrow> Deallocate buf (Throws ())
           | Aborts \<Rightarrow> Aborts
           | Violation k \<Rightarrow> Violation k))"

definition Vector_copy :: "'a elem_type \<Rightarrow> 'a Vector \<Rightarrow> ('a Vector, unit) outcome" where
  "Vector_copy T other =
     (case RawMemory T (m_size other) of
        None \<Rightarrow> Throws ()
      | Some data \<Rightarrow>
          (case uninitialized_copy_n T (m_data other) 0 (m_size other) data 0 of
             Returns buf \<Rightarrow> Returns \<lparr>m_data = buf, m_size = m_size other\<rparr>
           | Throws buf \<Rightarrow> Deallocate buf (Throws ())
           | Aborts \<Rightarrow> Aborts
           | Violation k \<Rightarrow> Violation k))"

text \<open>
  \<^verbatim>\<open>Vector(Vector&& other)\<close> takes the block and the size with \<^verbatim>\<open>std::exchange\<close>, which
  leaves an empty \<^verbatim>\<open>RawMemory\<close> and \<open>0\<close> behind. The result is the new vector and the
  state of \<open>other\<close>.
\<close>

definition Vector_move :: "'a Vector \<Rightarrow> 'a Vector \<times> 'a Vector" where
  "Vector_move other = (\<lparr>m_data = m_data other, m_size = m_size other\<rparr>, \<lparr>m_data = [], m_size = 0\<rparr>)"

definition Vector_dtor :: "'a Vector \<Rightarrow> (unit, unit) outcome" where
  "Vector_dtor v =
     (case destroy_n (m_data v) 0 (m_size v) of
        Inl k \<Rightarrow> Violation k
      | Inr buf \<Rightarrow> Deallocate buf (Returns ()))"

text \<open>\<open>Swap v other\<close> gives the states of \<^verbatim>\<open>*this\<close> and of \<open>other\<close> after the call.\<close>

definition Swap :: "'a Vector \<Rightarrow> 'a Vector \<Rightarrow> 'a Vector \<times> 'a Vector" where
  "Swap v other =
     (\<lparr>m_data = m_data other, m_size = m_size other\<rparr>, \<lparr>m_data = m_data v, m_size = m_size v\<rparr>)"

text \<open>\<^verbatim>\<open>operator=(Vector&& rhs)\<close> is \<^verbatim>\<open>Swap(rhs)\<close> and nothing else.\<close>

definition move_assignment :: "'a Vector \<Rightarrow> 'a Vector \<Rightarrow> 'a Vector \<times> 'a Vector" where
  "move_assignment v rhs = Swap v rhs"

text \<open>
  \<^verbatim>\<open>operator=(const Vector& rhs)\<close>; \<open>rhs = None\<close> stands for self-assignment, which
  the test \<^verbatim>\<open>this != &rhs\<close> turns into no work.
\<close>

definition copy_assignment ::
  "'a elem_type \<Rightarrow> 'a Vector \<Rightarrow> 'a Vector option \<Rightarrow> ('a Vector, 'a Vector) outcome" where
  "copy_assignment T v rhs_opt =
     (case rhs_opt of
        None \<Rightarrow> Returns v
      | Some rhs \<Rightarrow>
          if m_size rhs \<le> Capacity v then
            (if m_size v \<le> m_size rhs then
               (case copy_range T (m_data rhs) 0 (m_size v) (m_data v) 0 of
                  Returns d \<Rightarrow>
                    (case uninitialized_copy_n T (m_data rhs) (m_size v) (m_size rhs - m_size v) d (m_size v) of
                       Returns d' \<Rightarrow> Returns \<lparr>m_data = d', m_size = m_size rhs\<rparr>
                     | Throws d' \<Rightarrow> Throws (v\<lparr>m_data := d'\<rparr>)
                     | Aborts \<Rightarrow> Aborts
                     | Violation k \<Rightarrow> Violation k)
                | Throws d \<Rightarrow> Throws (v\<lparr>m_data := d\<rparr>)
                | Aborts \<Rightarrow> Aborts
                | Violation k \<Rightarrow> Violation k)
             else
               (case copy_range T (m_data rhs) 0 (m_size rhs) (m_data v) 0 of
                  Returns d \<Rightarrow>
                    (case destroy_n d (m_size rhs) (m_size v - m_size rhs) of
                       Inl k \<Rightarrow> Violation k
                     | Inr d' \<Rightarrow> Returns \<lparr>m_data = d', m_size = m_size rhs\<rparr>)
                | Throws d \<Rightarrow> Throws (v\<lparr>m_data := d\<rparr>)
                | Aborts \<Rightarrow> Aborts
                | Violation k \<Rightarrow> Violation k))
          else
            (case Vector_copy T rhs of
               Returns other_copy \<Rightarrow>
                 (case Swap v other_copy of
                    (v', other_copy') \<Rightarrow>
                      (case Vector_dtor other_copy' of
                         Returns u \<Rightarrow> Returns v'
                       | Throws u \<Rightarrow> Throws v'
                       | Aborts \<Rightarrow> Aborts
                       | Violation k \<Rightarrow> Violation k))
             | Throws u \<Rightarrow> Throws v
             | Aborts \<Rightarrow> Aborts
             | Violation k \<Rightarrow> Violation k))"

subsection \<open>Capacity\<close>

text \<open>
  \<^verbatim>\<open>Reserve\<close> has no handler: when the allocation throws nothing has happened yet,
  and when the relocation throws, \<^verbatim>\<open>new_data\<close> is released on the way out and
  \<^verbatim>\<open>data_\<close> keeps the old block, with whatever the moves did to it.
\<close>

definition Reserve :: "'a elem_type \<Rightarrow> nat \<Rightarrow> 'a Vector \<Rightarrow> ('a Vector, 'a Vector) outcome" where
  "Reserve T new_capacity v =
     (if new_capacity \<le> Capacity v then Returns v
      else
        (case RawMemory T new_capacity of
           None \<Rightarrow> Throws v
         | Some new_data \<Rightarrow>
             (case relocate_n T (m_data v) 0 (m_size v) new_data 0 of
                Returns (old, new_data') \<Rightarrow>
                  (case destroy_n old 0 (m_size v) of
                     Inl k \<Rightarrow> Violation k
                   | Inr old' \<Rightarrow> Deallocate old' (Returns \<lparr>m_data = new_data', m_size = m_size v\<rparr>))
              | Throws (old, new_data') \<Rightarrow> Deallocate new_data' (Throws (v\<lparr>m_data := old\<rparr>))
              | Aborts \<Rightarrow> Aborts
              | Violation k \<Rightarrow> Violation k)))"

definition Resize :: "'a elem_type \<Rightarrow> nat \<Rightarrow> 'a Vector \<Rightarrow> ('a Vector, 'a Vector) outcome" where
  "Resize T new_size v =
     (if new_size < m_size v then
        (case destroy_n (m_data v) new_size (m_size v - new_size) of
           Inl k \<Rightarrow> Violation k
         | Inr d \<Rightarrow> Returns \<lparr>m_data = d, m_size = new_size\<rparr>)
      else
        (case (if new_size > Capacity v then Reserve T new_size v else Returns v) of
           Returns v' \<Rightarrow>
             (case uninitialized_value_construct_n T (m_data v') (m_size v') (new_size - m_size v') of
                Returns d \<Rightarrow> Returns \<lparr>m_data = d, m_size = new_size\<rparr>
              | Throws d \<Rightarrow> Throws (v'\<lparr>m_data := d\<rparr>)
              | Aborts \<Rightarrow> Aborts
              | Violation k \<Rightarrow> Violation k)
         | Throws v' \<Rightarrow> Throws v'
         | Aborts \<Rightarrow> Aborts
         | Violation k \<Rightarrow> Violation k))"

subsection \<open>Adding and removing at the end\<close>

text \<open>
  \<open>made\<close> is what \<^verbatim>\<open>T(std::forward<Args>(args)...)\<close> builds, \<open>None\<close> when that
  constructor throws; the arguments are not moved out of the vector's own elements.
  On the growing path \<^verbatim>\<open>new_data\<close> is allocated before that constructor runs.
  The reference returned is \<^verbatim>\<open>data_[size_++]\<close>, whose \<^verbatim>\<open>operator[]\<close> asserts
  \<^verbatim>\<open>index < capacity_\<close>.
\<close>

definition EmplaceBack :: "'a elem_type \<Rightarrow> 'a option \<Rightarrow> 'a Vector \<Rightarrow> ('a Vector, 'a Vector) outcome" where
  "EmplaceBack T made v =
     (case
        (if Capacity v \<le> m_size v then
           (case RawMemory T (if m_size v = 0 then 1 else m_size v * 2 mod 2 ^ 64) of
              None \<Rightarrow> Throws v
            | Some new_data0 \<Rightarrow>
                (case made of
                   None \<Rightarrow> Deallocate new_data0 (Throws v)
                 | Some x \<Rightarrow>
                     (case construct_at new_data0 (m_size v) x of
                        Inl k \<Rightarrow> Violation k
                      | Inr new_data \<Rightarrow>
                          (case relocate_n T (m_data v) 0 (m_size v) new_data 0 of
                             Throws (old, new_data') \<Rightarrow>
                               (case destroy_at new_data' (m_size v) of
                                  Inl k \<Rightarrow> Violation k
                                | Inr new_data'' \<Rightarrow> Deallocate new_data'' (Throws (v\<lparr>m_data := old\<rparr>)))
                           | Returns (old, new_data') \<Rightarrow>
                               (case destroy_n old 0 (m_size v) of
                                  Inl k \<Rightarrow> Violation k
                                | Inr old' \<Rightarrow> Deallocate old' (Returns (v\<lparr>m_data := new_data'\<rparr>)))
                           | Aborts \<Rightarrow> Aborts
                           | Violation k \<Rightarrow> Violation k))))
         else
           (case made of
              None \<Rightarrow> Throws v
            | Some x \<Rightarrow>
                (case construct_at (m_data v) (m_size v) x of
                   Inl k \<Rightarrow> Violation k
                 | Inr d \<Rightarrow> Returns (v\<lparr>m_data := d\<rparr>)))) of
        Returns v' \<Rightarrow> if m_size v' < Capacity v' then Returns (v'\<lparr>m_size := m_size v' + 1\<rparr>) else Aborts
      | Throws v' \<Rightarrow> Throws v'
      | Aborts \<Rightarrow> Aborts
      | Violation k \<Rightarrow> Violation k)"

text \<open>
  \<^verbatim>\<open>PushBack(const T&)\<close> copy-constructs the new element and \<^verbatim>\<open>PushBack(T&&)\<close>
  move-constructs it; the object moved from belongs to the caller.
\<close>

definition PushBack :: "'a elem_type \<Rightarrow> 'a \<Rightarrow> 'a Vector \<Rightarrow> ('a Vector, 'a Vector) outcome" where
  "PushBack T value v = EmplaceBack T (copy_ctor T value) v"

definition PushBack_rvalue :: "'a elem_type \<Rightarrow> 'a \<Rightarrow> 'a Vector \<Rightarrow> ('a Vector, 'a Vector) outcome" where
  "PushBack_rvalue T value v = EmplaceBack T (map_option fst (move_ctor T value)) v"

definition PopBack :: "'a Vector \<Rightarrow> ('a Vector, 'a Vector) outcome" where
  "PopBack v =
     (if m_size v = 0 then Aborts
      else (case destroy_at (m_data v) (m_size v - 1) of
              Inl k \<Rightarrow> Violation k
            | Inr d \<Rightarrow> Returns \<lparr>m_data = d, m_size = m_size v - 1\<rparr>))"

subsection \<open>Adding and removing at a position\<close>

text \<open>
  A position is its distance from \<^verbatim>\<open>begin()\<close>. With room left and a position before
  the end, \<^verbatim>\<open>Emplace\<close> builds \<^verbatim>\<open>new_value\<close>, move-constructs the last element into
  the slot at \<^verbatim>\<open>end()\<close>, shifts \<open>[distance, size_ - 1)\<close> one slot up inside a
  \<^verbatim>\<open>try\<close> whose handler destroys the slot at \<^verbatim>\<open>end()\<close>, and after the \<^verbatim>\<open>try\<close>
  move-assigns \<^verbatim>\<open>new_value\<close> to the slot at the position.
\<close>

definition Emplace :: "'a elem_type \<Rightarrow> nat \<Rightarrow> 'a option \<Rightarrow> 'a Vector \<Rightarrow> ('a Vector, 'a Vector) outcome" where
  "Emplace T distance made v =
     (if \<not> distance \<le> m_size v then Aborts
      else
       (case
          (if Capacity v \<le> m_size v then
             (case RawMemory T (if m_size v = 0 then 1 else m_size v * 2 mod 2 ^ 64) of
                None \<Rightarrow> Throws v
              | Some new_data0 \<Rightarrow>
                  (case made of
                     None \<Rightarrow> Deallocate new_data0 (Throws v)
                   | Some x \<Rightarrow>
                       (case construct_at new_data0 distance x of
                          Inl k \<Rightarrow> Violation k
                        | Inr new_data \<Rightarrow>
                            (case
                               (case relocate_n T (m_data v) 0 distance new_data 0 of
                                  Returns (old, new_data') \<Rightarrow>
                                    relocate_n T old distance (m_size v - distance) new_data' (distance + 1)
                                | Throws st \<Rightarrow> Throws st
                                | Aborts \<Rightarrow> Aborts
                                | Violation k \<Rightarrow> Violation k) of
                               Throws (old, new_data') \<Rightarrow>
                                 (case destroy_n new_data' 0 (distance + 1) of
                                    Inl k \<Rightarrow> Violation k
                                  | Inr new_data'' \<Rightarrow> Deallocate new_data'' (Throws (v\<lparr>m_data := old\<rparr>)))
                             | Returns (old, new_data') \<Rightarrow>
                                 (case destroy_n old 0 (m_size v) of
                                    Inl k \<Rightarrow> Violation k
                                  | Inr old' \<Rightarrow> Deallocate old' (Returns (v\<lparr>m_data := new_data'\<rparr>)))
                             | Aborts \<Rightarrow> Aborts
                             | Violation k \<Rightarrow> Violation k))))
           else if distance \<noteq> m_size v then
             (case made of
                None \<Rightarrow> Throws v
              | Some new_value \<Rightarrow>
                  (case obj_at (m_data v) (m_size v - 1) of
                     Inl k \<Rightarrow> Violation k
                   | Inr l \<Rightarrow>
                       (case move_ctor T l of
                          None \<Rightarrow> Throws v
                        | Some (y, l') \<Rightarrow>
                            (case construct_at ((m_data v)[m_size v - 1 := Live l']) (m_size v) y of
                               Inl k \<Rightarrow> Violation k
                             | Inr d \<Rightarrow>
                                 (case move_backward T d distance (m_size v - 1 - distance) (m_size v) of
                                    Throws d' \<Rightarrow>
                                      (case destroy_at d' (m_size v) of
                                         Inl k \<Rightarrow> Violation k
                                       | Inr d'' \<Rightarrow> Throws (v\<lparr>m_data := d''\<rparr>))
                                  | Returns d' \<Rightarrow>
                                      (case obj_at d' distance of
                                         Inl k \<Rightarrow> Violation k
                                       | Inr t \<Rightarrow>
                                           (case move_assign T t new_value of
                                              None \<Rightarrow> Throws (v\<lparr>m_data := d'\<rparr>)
                                            | Some (t', nv') \<Rightarrow> Returns (v\<lparr>m_data := d'[distance := Live t']\<rparr>)))
                                  | Aborts \<Rightarrow> Aborts
                                  | Violation k \<Rightarrow> Violation k)))))
           else
             (case made of
                None \<Rightarrow> Throws v
              | Some x \<Rightarrow>
                  (case construct_at (m_data v) (m_size v) x of
                     Inl k \<Rightarrow> Violation k
                   | Inr d \<Rightarrow> Returns (v\<lparr>m_data := d\<rparr>)))) of
          Returns v' \<Rightarrow> Returns (v'\<lparr>m_size := m_size v' + 1\<rparr>)
        | Throws v' \<Rightarrow> Throws v'
        | Aborts \<Rightarrow> Aborts
        | Violation k \<Rightarrow> Violation k))"

definition Erase :: "'a elem_type \<Rightarrow> nat \<Rightarrow> 'a Vector \<Rightarrow> ('a Vector, 'a Vector) outcome" where
  "Erase T distance v =
     (if \<not> distance < Size v then Aborts
      else
        (case move_range T (m_data v) (distance + 1) (m_size v - (distance + 1)) distance of
           Returns d \<Rightarrow>
             (case destroy_at d (m_size v - 1) of
                Inl k \<Rightarrow> Violation k
              | Inr d' \<Rightarrow> Returns \<lparr>m_data = d', m_size = m_size v - 1\<rparr>)
         | Throws d \<Rightarrow> Throws (v\<lparr>m_data := d\<rparr>)
         | Aborts \<Rightarrow> Aborts
         | Violation k \<Rightarrow> Violation k))"

definition Insert :: "'a elem_type \<Rightarrow> nat \<Rightarrow> 'a \<Rightarrow> 'a Vector \<Rightarrow> ('a Vector, 'a Vector) outcome" where
  "Insert T distance value v = Emplace T distance (copy_ctor T value) v"

definition Insert_rvalue :: "'a elem_type \<Rightarrow> nat \<Rightarrow> 'a \<Rightarrow> 'a Vector \<Rightarrow> ('a Vector, 'a Vector) outcome" where
  "Insert_rvalue T distance value v = Emplace T distance (map_option fst (move_ctor T value)) v"

section \<open>The invariant and the sequence of values\<close>

text \<open>
  The invariant of \<^verbatim>\<open>Vector\<close>: the size is within the capacity, the slots before the
  size hold live objects, the slots from the size on are storage that holds none.
\<close>

definition valid :: "'a Vector \<Rightarrow> bool" where
  "valid v =
     (m_size v \<le> Capacity v
      \<and> list_all is_Live (take (m_size v) (m_data v))
      \<and> list_all is_Raw (drop (m_size v) (m_data v)))"

fun objects :: "'a slot list \<Rightarrow> 'a list" where
  "objects [] = []"
| "objects (Raw # ss) = objects ss"
| "objects (Live x # ss) = x # objects ss"
| "objects (Beyond # ss) = objects ss"

definition elems :: "'a Vector \<Rightarrow> 'a list" where
  "elems v = objects (take (m_size v) (m_data v))"

text \<open>
  Element types used in examples. \<open>plain\<close> behaves like \<^verbatim>\<open>int\<close>: it takes 4 bytes,
  nothing throws and a move leaves its source as it was. In the examples
  \<^verbatim>\<open>operator new\<close> returns whatever it is asked for.
\<close>

definition plain :: "int elem_type" where
  "plain =
     \<lparr>nothrow_move_constructible = True, copy_constructible = True,
      value_ctor = (\<lambda>k. Some 0),
      copy_ctor = (\<lambda>x. Some x),
      move_ctor = (\<lambda>x. Some (x, x)),
      copy_assign = (\<lambda>y x. Some x),
      move_assign = (\<lambda>y x. Some (x, x)),
      sizeof = 4,
      operator_new = (\<lambda>count. True)\<rparr>"

text \<open>
  A program that makes the next call on the vector when the previous call has returned
  and catches no exception.
\<close>

definition then_call ::
  "('a Vector, 'a Vector) outcome \<Rightarrow> ('a Vector \<Rightarrow> ('a Vector, 'a Vector) outcome)
   \<Rightarrow> ('a Vector, 'a Vector) outcome" where
  "then_call r f =
     (case r of
        Returns v \<Rightarrow> f v
      | Throws v \<Rightarrow> Throws v
      | Aborts \<Rightarrow> Aborts
      | Violation k \<Rightarrow> Violation k)"

section \<open>Describing a call by the values it works on\<close>

text \<open>
  The functions of this section are not in the source: they say, on lists of values,
  what the loops above do, and the proofs connect the two.

  \<open>move_each T xs\<close> move-constructs from \<open>xs\<close> in order up to the first throw: the
  objects built, the sources as the moves left them, and whether all moves succeeded.
  \<open>relocate_each\<close> does the same for the choice a reallocation makes; copying leaves the
  sources alone.
\<close>

fun move_each :: "'a elem_type \<Rightarrow> 'a list \<Rightarrow> 'a list \<times> 'a list \<times> bool" where
  "move_each T [] = ([], [], True)"
| "move_each T (x # xs) =
     (case move_ctor T x of
        None \<Rightarrow> ([], x # xs, False)
      | Some (y, x') \<Rightarrow> (case move_each T xs of (ys, xs', ok) \<Rightarrow> (y # ys, x' # xs', ok)))"

definition relocate_each :: "'a elem_type \<Rightarrow> 'a list \<Rightarrow> 'a list \<times> 'a list \<times> bool" where
  "relocate_each T xs =
     (if relocates_by_move T then move_each T xs
      else (case those (map (copy_ctor T) xs) of
              Some ys \<Rightarrow> (ys, xs, True)
            | None \<Rightarrow> ([], xs, False)))"

text \<open>
  \<open>value_each T n\<close>: the objects that \<open>n\<close> calls of the default constructor build, one
  after the other, and \<open>None\<close> when one of these calls throws.
\<close>

definition value_each :: "'a elem_type \<Rightarrow> nat \<Rightarrow> 'a list option" where
  "value_each T n = those (map (value_ctor T) [0..<n])"

text \<open>
  \<open>kind s\<close> is the slot \<open>s\<close> without the value of its object: what an assignment to
  a live object leaves unchanged.
\<close>

definition kind :: "'a slot \<Rightarrow> unit slot" where
  "kind s = map_slot (\<lambda>x. ()) s"

text \<open>The vector that holds the objects \<open>xs\<close> and has \<open>m\<close> slots to spare.\<close>

definition vec :: "'a list \<Rightarrow> nat \<Rightarrow> 'a Vector" where
  "vec xs m = \<lparr>m_data = map Live xs @ replicate m Raw, m_size = length xs\<rparr>"

text \<open>
  Element types with the usual copy and move semantics: a copy or move that succeeds
  gives its target the value of its source (\<open>preserves_values\<close>), and copying and moving
  do not throw (\<open>never_throws\<close>). What a move leaves in its source is not fixed.
\<close>

definition preserves_values :: "'a elem_type \<Rightarrow> bool" where
  "preserves_values T =
     ((\<forall>x y. copy_ctor T x = Some y \<longrightarrow> y = x)
      \<and> (\<forall>x y x'. move_ctor T x = Some (y, x') \<longrightarrow> y = x)
      \<and> (\<forall>t x t'. copy_assign T t x = Some t' \<longrightarrow> t' = x)
      \<and> (\<forall>t x t' x'. move_assign T t x = Some (t', x') \<longrightarrow> t' = x))"

definition never_throws :: "'a elem_type \<Rightarrow> bool" where
  "never_throws T =
     ((\<forall>x. copy_ctor T x \<noteq> None) \<and> (\<forall>x. move_ctor T x \<noteq> None)
      \<and> (\<forall>t x. copy_assign T t x \<noteq> None) \<and> (\<forall>t x. move_assign T t x \<noteq> None))"

text \<open>
  Requests for storage. \<open>fits_size_t T n\<close>: the byte count of \<open>n\<close> objects is a value
  of \<^verbatim>\<open>size_t\<close>, so that the product in \<^verbatim>\<open>Allocate\<close> does not wrap.
  \<open>provides T n\<close>: moreover \<^verbatim>\<open>operator new\<close> returns that many bytes, so that
  \<^verbatim>\<open>RawMemory(n)\<close> is a block of \<open>n\<close> slots of storage; nothing is asked for when
  \<open>n = 0\<close>. \<open>relocatable T xs\<close>: the constructor that a reallocation would use does not
  throw on any of \<open>xs\<close>.
\<close>

definition fits_size_t :: "'a elem_type \<Rightarrow> nat \<Rightarrow> bool" where
  "fits_size_t T n = (0 < sizeof T \<and> n * sizeof T < 2 ^ 64)"

definition provides :: "'a elem_type \<Rightarrow> nat \<Rightarrow> bool" where
  "provides T n = (n = 0 \<or> (fits_size_t T n \<and> operator_new T (n * sizeof T)))"


section \<open>Element types for the examples\<close>


text \<open>
  \<open>copied\<close>: like \<open>plain\<close>, with a move constructor that is not \<^verbatim>\<open>noexcept\<close>, so that
  a reallocation copies the elements.
\<close>

definition copied :: "int elem_type" where
  "copied = plain\<lparr>nothrow_move_constructible := False\<rparr>"

text \<open>\<open>no_memory\<close>: like \<open>plain\<close>, in a program where \<^verbatim>\<open>operator new\<close> always throws.\<close>

definition no_memory :: "int elem_type" where
  "no_memory = plain\<lparr>operator_new := (\<lambda>count. False)\<rparr>"

text \<open>
  \<open>move_only\<close>: a type without copy constructor whose move constructor throws on the
  value 2 and leaves 0 in a source it has moved from.
\<close>

definition move_only :: "int elem_type" where
  "move_only =
     \<lparr>nothrow_move_constructible = False, copy_constructible = False,
      value_ctor = (\<lambda>k. Some 0),
      copy_ctor = (\<lambda>x. None),
      move_ctor = (\<lambda>x. if x = 2 then None else Some (x, 0)),
      copy_assign = (\<lambda>y x. None),
      move_assign = (\<lambda>y x. Some (x, 0)),
      sizeof = 4,
      operator_new = (\<lambda>count. True)\<rparr>"

text \<open>
  \<open>copy_throws\<close>: a copy-constructible type whose move constructor may throw, so that
  it is relocated by copying, and whose copy constructor throws on the value 1.
\<close>

definition copy_throws :: "int elem_type" where
  "copy_throws =
     \<lparr>nothrow_move_constructible = False, copy_constructible = True,
      value_ctor = (\<lambda>k. Some 0),
      copy_ctor = (\<lambda>x. if x = 1 then None else Some x),
      move_ctor = (\<lambda>x. Some (x, 0)),
      copy_assign = (\<lambda>y x. Some x),
      move_assign = (\<lambda>y x. Some (x, 0)),
      sizeof = 4,
      operator_new = (\<lambda>count. True)\<rparr>"

text \<open>
  \<open>assign_throws_on k\<close>: a type whose move assignment throws when the value assigned
  is \<open>k\<close>; a move leaves 0 in its source.
\<close>

definition assign_throws_on :: "int \<Rightarrow> int elem_type" where
  "assign_throws_on k =
     \<lparr>nothrow_move_constructible = True, copy_constructible = True,
      value_ctor = (\<lambda>j. Some 0),
      copy_ctor = (\<lambda>x. Some x),
      move_ctor = (\<lambda>x. Some (x, 0)),
      copy_assign = (\<lambda>y x. Some x),
      move_assign = (\<lambda>y x. if x = k then None else Some (x, 0)),
      sizeof = 4,
      operator_new = (\<lambda>count. True)\<rparr>"

section \<open>Reachable states\<close>

text \<open>
  The states a program brings a vector to: it starts at a constructor and calls public
  member functions, on vectors it has reached. A call that returns leaves a state, and
  so does a call that throws; the throwing exits of \<^verbatim>\<open>Emplace\<close> on the path that shifts
  in place are left out, and so are the calls whose request for storage does not fit
  \<^verbatim>\<open>size_t\<close>. \<^verbatim>\<open>PushBack\<close> and \<^verbatim>\<open>Insert\<close> are \<^verbatim>\<open>EmplaceBack\<close> and \<^verbatim>\<open>Emplace\<close>
  with one argument.
\<close>

inductive reachable :: "'a elem_type \<Rightarrow> 'a Vector \<Rightarrow> bool" for T :: "'a elem_type" where
  by_default: "reachable T Vector_default"
| by_size: "fits_size_t T n \<Longrightarrow> Vector_sized T n = Returns v \<Longrightarrow> reachable T v"
| by_copy: "reachable T w \<Longrightarrow> fits_size_t T (Size w) \<Longrightarrow> Vector_copy T w = Returns v \<Longrightarrow> reachable T v"
| by_move: "reachable T w \<Longrightarrow> reachable T (fst (Vector_move w))"
| moved_from: "reachable T w \<Longrightarrow> reachable T (snd (Vector_move w))"
| swapped: "reachable T v \<Longrightarrow> reachable T w \<Longrightarrow> reachable T (fst (Swap v w))"
| move_assigned: "reachable T v \<Longrightarrow> reachable T w \<Longrightarrow> reachable T (fst (move_assignment v w))"
| move_assigned_from: "reachable T v \<Longrightarrow> reachable T w \<Longrightarrow> reachable T (snd (move_assignment v w))"
| copy_assigned:
    "reachable T v \<Longrightarrow> reachable T w \<Longrightarrow> fits_size_t T (Size w)
     \<Longrightarrow> copy_assignment T v (Some w) = Returns v' \<or> copy_assignment T v (Some w) = Throws v'
     \<Longrightarrow> reachable T v'"
| reserved:
    "reachable T v \<Longrightarrow> fits_size_t T n
     \<Longrightarrow> Reserve T n v = Returns v' \<or> Reserve T n v = Throws v' \<Longrightarrow> reachable T v'"
| resized:
    "reachable T v \<Longrightarrow> fits_size_t T n
     \<Longrightarrow> Resize T n v = Returns v' \<or> Resize T n v = Throws v' \<Longrightarrow> reachable T v'"
| emplaced_back:
    "reachable T v \<Longrightarrow> fits_size_t T (max 1 (2 * Size v))
     \<Longrightarrow> EmplaceBack T made v = Returns v' \<or> EmplaceBack T made v = Throws v'
     \<Longrightarrow> reachable T v'"
| popped: "reachable T v \<Longrightarrow> PopBack v = Returns v' \<Longrightarrow> reachable T v'"
| emplaced:
    "reachable T v \<Longrightarrow> fits_size_t T (max 1 (2 * Size v))
     \<Longrightarrow> Emplace T i made v = Returns v' \<Longrightarrow> reachable T v'"
| emplace_thrown:
    "reachable T v \<Longrightarrow> fits_size_t T (max 1 (2 * Size v))
     \<Longrightarrow> Emplace T i made v = Throws v'
     \<Longrightarrow> made = None \<or> Capacity v \<le> Size v \<or> i = Size v
     \<Longrightarrow> reachable T v'"
| erased: "reachable T v \<Longrightarrow> Erase T i v = Returns v' \<or> Erase T i v = Throws v' \<Longrightarrow> reachable T v'"

section \<open>Blocks keep their length\<close>

lemma RawMemory_length: "RawMemory T n = Some b \<Longrightarrow> length b = n"
  by (auto simp: RawMemory_def split: option.splits)

lemma construct_at_length: "construct_at buf i x = Inr b \<Longrightarrow> length b = length buf"
  by (auto simp: construct_at_def split: if_splits slot.splits)

lemma destroy_at_length: "destroy_at buf i = Inr b \<Longrightarrow> length b = length buf"
  by (auto simp: destroy_at_def split: slot.splits)

lemma destroy_n_length: "destroy_n buf first n = Inr b \<Longrightarrow> length b = length buf"
  by (induction n arbitrary: buf first) (auto split: sum.splits dest: destroy_at_length)

lemma unwind_length: "unwind dst f c = Throws b \<Longrightarrow> length b = length dst"
  by (auto simp: unwind_def split: sum.splits dest: destroy_n_length)

lemma unwind_not_Returns [simp]: "unwind dst f c \<noteq> Returns b"
  by (auto simp: unwind_def split: sum.splits)


lemma value_construct_loop_Throws_length:
  "value_construct_loop T dst f c n = Throws b \<Longrightarrow> length b = length dst"
  by (induction n arbitrary: dst c)
     (auto split: option.splits sum.splits dest: unwind_length construct_at_length)

lemma copy_construct_loop_Returns_length:
  "copy_construct_loop T src first dst f c n = Returns b \<Longrightarrow> length b = length dst"
  by (induction n arbitrary: dst c first)
     (auto split: option.splits sum.splits dest: construct_at_length)

lemma copy_construct_loop_Throws_length:
  "copy_construct_loop T src first dst f c n = Throws b \<Longrightarrow> length b = length dst"
  by (induction n arbitrary: dst c first)
     (auto split: option.splits sum.splits dest: unwind_length construct_at_length)

lemma move_construct_loop_Returns_length:
  "move_construct_loop T src first dst f c n = Returns (s, b)
   \<Longrightarrow> length b = length dst \<and> length s = length src"
  by (induction n arbitrary: src dst c first)
     (fastforce split: option.splits sum.splits dest: construct_at_length)+

lemma move_construct_loop_Throws_length:
  "move_construct_loop T src first dst f c n = Throws (s, b)
   \<Longrightarrow> length b = length dst \<and> length s = length src"
  by (induction n arbitrary: src dst c first)
     (fastforce split: option.splits sum.splits dest: destroy_n_length construct_at_length)+

lemma relocate_n_Returns_length:
  "relocate_n T src first n dst f = Returns (s, b)
   \<Longrightarrow> length b = length dst \<and> length s = length src"
  unfolding relocate_n_def uninitialized_move_n_def uninitialized_copy_n_def
  by (auto split: if_splits outcome.splits
      dest: move_construct_loop_Returns_length copy_construct_loop_Returns_length)

lemma relocate_n_Throws_length:
  "relocate_n T src first n dst f = Throws (s, b)
   \<Longrightarrow> length b = length dst \<and> length s = length src"
  unfolding relocate_n_def uninitialized_move_n_def uninitialized_copy_n_def
  by (auto split: if_splits outcome.splits
      dest: move_construct_loop_Throws_length copy_construct_loop_Throws_length)


section \<open>Moving a vector\<close>

text \<open>
  C3, as the code has it. Move construction leaves the source with size 0 and capacity
  0 and gives the new vector everything the source had. Move assignment \<open>B = move(A)\<close>
  exchanges the two vectors: \<open>B\<close> ends as \<open>A\<close> was and \<open>A\<close> ends as \<open>B\<close> was, so \<open>A\<close> is
  empty afterwards only when \<open>B\<close> was empty before.
\<close>

theorem move_source_state:
  "Size (snd (Vector_move a)) = 0 \<and> Capacity (snd (Vector_move a)) = 0
   \<and> fst (Vector_move a) = a
   \<and> move_assignment b a = (a, b)"
  by (simp add: Vector_move_def Size_def Capacity_def move_assignment_def Swap_def)

text \<open>
  C3 as stated fails for move assignment: with \<open>B\<close> holding one element, \<open>A\<close> holds one
  element and capacity 1 after \<open>B = move(A)\<close>.
\<close>

theorem move_assignment_source_not_empty:
  "\<not> (Size (snd (move_assignment \<lparr>m_data = [Live (7::int)], m_size = 1\<rparr>
                                  \<lparr>m_data = [Live 1, Live 2], m_size = 2\<rparr>)) = 0
      \<and> Capacity (snd (move_assignment \<lparr>m_data = [Live (7::int)], m_size = 1\<rparr>
                                        \<lparr>m_data = [Live 1, Live 2], m_size = 2\<rparr>)) = 0)"
  by (simp add: Size_def Capacity_def move_assignment_def Swap_def)

section \<open>The loops on blocks of a known shape\<close>

lemma obj_at_mid [simp]: "obj_at (A @ Live x # B) (length A) = Inr x"
  by (simp add: obj_at_def slot_at_def)

lemma destroy_at_mid [simp]: "destroy_at (A @ Live x # B) (length A) = Inr (A @ Raw # B)"
  by (simp add: destroy_at_def slot_at_def)

lemma construct_at_mid [simp]: "construct_at (A @ Raw # B) (length A) x = Inr (A @ Live x # B)"
  by (simp add: construct_at_def)

lemma destroy_n_live:
  "destroy_n (A @ map Live xs @ B) (length A) (length xs) = Inr (A @ replicate (length xs) Raw @ B)"
proof (induction xs arbitrary: A)
  case Nil
  then show ?case by simp
next
  case (Cons x xs)
  have "destroy_n ((A @ [Raw]) @ map Live xs @ B) (length (A @ [Raw])) (length xs)
        = Inr ((A @ [Raw]) @ replicate (length xs) Raw @ B)"
    by (rule Cons.IH)
  then show ?case by simp
qed

lemma unwind_live:
  "unwind (A @ map Live xs @ B) (length A) (length A + length xs) = Throws (A @ replicate (length xs) Raw @ B)"
  by (simp add: unwind_def destroy_n_live)



lemma copy_construct_loop_compute:
  "copy_construct_loop T (S @ map Live xs @ S') (length S)
      (D @ map Live built @ replicate (length xs) Raw @ D') (length D) (length D + length built) (length xs)
   = (case those (map (copy_ctor T) xs) of
        Some ys \<Rightarrow> Returns (D @ map Live built @ map Live ys @ D')
      | None \<Rightarrow> Throws (D @ replicate (length built + length xs) Raw @ D'))"
proof (induction xs arbitrary: S built)
  case Nil
  then show ?case by simp
next
  case (Cons x xs)
  show ?case
  proof (cases "copy_ctor T x")
    case None
    have "unwind (D @ map Live built @ (Raw # replicate (length xs) Raw @ D')) (length D) (length D + length built)
          = Throws (D @ replicate (length built) Raw @ (Raw # replicate (length xs) Raw @ D'))"
      by (rule unwind_live)
    with None show ?thesis by (simp add: replicate_add replicate_append_same)
  next
    case (Some y)
    have c: "construct_at ((D @ map Live built) @ Raw # (replicate (length xs) Raw @ D')) (length (D @ map Live built)) y
          = Inr ((D @ map Live built) @ Live y # (replicate (length xs) Raw @ D'))"
      by (rule construct_at_mid)
    have ih: "copy_construct_loop T ((S @ [Live x]) @ map Live xs @ S') (length (S @ [Live x]))
      (D @ map Live (built @ [y]) @ replicate (length xs) Raw @ D') (length D) (length D + length (built @ [y])) (length xs)
      = (case those (map (copy_ctor T) xs) of
        Some ys \<Rightarrow> Returns (D @ map Live (built @ [y]) @ map Live ys @ D')
      | None \<Rightarrow> Throws (D @ replicate (length (built @ [y]) + length xs) Raw @ D'))"
      by (rule Cons.IH)
    from Some c ih show ?thesis by (simp split: option.splits)
  qed
qed

lemma value_construct_loop_compute:
  "value_construct_loop T (D @ map Live built @ replicate n Raw @ D') (length D) (length D + length built) n
   = (case those (map (value_ctor T) [length built..<length built + n]) of
        Some ys \<Rightarrow> Returns (D @ map Live built @ map Live ys @ D')
      | None \<Rightarrow> Throws (D @ replicate (length built + n) Raw @ D'))"
proof (induction n arbitrary: built)
  case 0
  then show ?case by simp
next
  case (Suc n)
  have u: "[length built..<length built + Suc n] = length built # [Suc (length built)..<Suc (length built) + n]"
    by (simp add: upt_conv_Cons)
  show ?case
  proof (cases "value_ctor T (length built)")
    case None
    have "unwind (D @ map Live built @ (Raw # replicate n Raw @ D')) (length D) (length D + length built)
          = Throws (D @ replicate (length built) Raw @ (Raw # replicate n Raw @ D'))"
      by (rule unwind_live)
    with None show ?thesis
      unfolding u by (simp add: replicate_add replicate_append_same)
  next
    case (Some y)
    have c: "construct_at ((D @ map Live built) @ Raw # (replicate n Raw @ D')) (length (D @ map Live built)) y
          = Inr ((D @ map Live built) @ Live y # (replicate n Raw @ D'))"
      by (rule construct_at_mid)
    have ih: "value_construct_loop T (D @ map Live (built @ [y]) @ replicate n Raw @ D') (length D)
                (length D + length (built @ [y])) n
      = (case those (map (value_ctor T) [length (built @ [y])..<length (built @ [y]) + n]) of
        Some ys \<Rightarrow> Returns (D @ map Live (built @ [y]) @ map Live ys @ D')
      | None \<Rightarrow> Throws (D @ replicate (length (built @ [y]) + n) Raw @ D'))"
      by (rule Suc.IH)
    from Some c ih show ?thesis
      unfolding u by (simp split: option.splits)
  qed
qed

lemma move_construct_loop_compute:
  "move_construct_loop T (S @ map Live xs @ S') (length S)
      (D @ map Live built @ replicate (length xs) Raw @ D') (length D) (length D + length built) (length xs)
   = (case move_each T xs of
        (ys, xs', True) \<Rightarrow> Returns (S @ map Live xs' @ S', D @ map Live built @ map Live ys @ D')
      | (ys, xs', False) \<Rightarrow> Throws (S @ map Live xs' @ S', D @ replicate (length built + length xs) Raw @ D'))"
proof (induction xs arbitrary: S built)
  case Nil
  then show ?case by simp
next
  case (Cons x xs)
  show ?case
  proof (cases "move_ctor T x")
    case None
    have "destroy_n (D @ map Live built @ (Raw # replicate (length xs) Raw @ D')) (length D) (length built)
          = Inr (D @ replicate (length built) Raw @ (Raw # replicate (length xs) Raw @ D'))"
      by (rule destroy_n_live)
    with None show ?thesis by (simp add: replicate_add replicate_append_same)
  next
    case (Some p)
    obtain y x' where p: "p = (y, x')" by (cases p)
    have c: "construct_at ((D @ map Live built) @ Raw # (replicate (length xs) Raw @ D')) (length (D @ map Live built)) y
          = Inr ((D @ map Live built) @ Live y # (replicate (length xs) Raw @ D'))"
      by (rule construct_at_mid)
    have ih: "move_construct_loop T ((S @ [Live x']) @ map Live xs @ S') (length (S @ [Live x']))
      (D @ map Live (built @ [y]) @ replicate (length xs) Raw @ D') (length D) (length D + length (built @ [y])) (length xs)
      = (case move_each T xs of
        (ys, xs', True) \<Rightarrow> Returns ((S @ [Live x']) @ map Live xs' @ S', D @ map Live (built @ [y]) @ map Live ys @ D')
      | (ys, xs', False) \<Rightarrow> Throws ((S @ [Live x']) @ map Live xs' @ S', D @ replicate (length (built @ [y]) + length xs) Raw @ D'))"
      by (rule Cons.IH)
    from Some p c ih show ?thesis by (simp split: option.splits prod.splits bool.splits)
  qed
qed





lemma objects_map_Live [simp]: "objects (map Live xs @ ss) = xs @ objects ss"
  by (induction xs) auto

lemma objects_only_Live [simp]: "objects (map Live xs) = xs"
  using objects_map_Live [of xs "[]"] by simp

lemma objects_replicate_Raw [simp]: "objects (replicate n Raw) = []"
  by (induction n) auto

lemma all_Live_shape: "list_all is_Live ss \<Longrightarrow> ss = map Live (objects ss)"
  by (induction ss rule: objects.induct) (auto simp: is_Live_def)

lemma all_Raw_shape: "list_all is_Raw ss \<Longrightarrow> ss = replicate (length ss) Raw"
  by (induction ss rule: objects.induct) (auto simp: is_Raw_def)

lemma valid_vec [simp]: "valid (vec xs m)"
  by (simp add: valid_def vec_def Capacity_def list_all_iff is_Live_def is_Raw_def)

lemma elems_vec [simp]: "elems (vec xs m) = xs"
  using objects_map_Live [of xs "[]"] by (simp add: elems_def vec_def)

lemma size_vec [simp]: "m_size (vec xs m) = length xs"
  by (simp add: vec_def)

lemma Capacity_vec [simp]: "Capacity (vec xs m) = length xs + m"
  by (simp add: vec_def Capacity_def)

lemma valid_shape:
  assumes "valid v"
  shows "v = vec (elems v) (Capacity v - m_size v)"
proof -
  from assms have le: "m_size v \<le> length (m_data v)"
    and l: "list_all is_Live (take (m_size v) (m_data v))"
    and r: "list_all is_Raw (drop (m_size v) (m_data v))"
    by (simp_all add: valid_def Capacity_def)
  have "m_data v = take (m_size v) (m_data v) @ drop (m_size v) (m_data v)"
    by simp
  also have "\<dots> = map Live (elems v) @ replicate (length (m_data v) - m_size v) Raw"
    using all_Live_shape [OF l] all_Raw_shape [OF r] by (simp add: elems_def)
  finally have d: "m_data v = map Live (elems v) @ replicate (Capacity v - m_size v) Raw"
    by (simp add: Capacity_def)
  have "length (elems v) = m_size v"
  proof -
    have "length (map Live (elems v)) = length (take (m_size v) (m_data v))"
      using all_Live_shape [OF l] by (simp add: elems_def)
    with le show ?thesis by simp
  qed
  with d show ?thesis by (simp add: vec_def)
qed

lemma those_length: "those os = Some ys \<Longrightarrow> length ys = length os"
  by (induction os arbitrary: ys) (auto split: option.splits)

lemma move_each_lengths: "move_each T xs = (ys, xs', ok) \<Longrightarrow> length xs' = length xs \<and> (ok \<longrightarrow> length ys = length xs)"
  by (induction xs arbitrary: ys xs' ok) (auto split: option.splits prod.splits)

lemma relocate_each_lengths:
  "relocate_each T xs = (ys, xs', ok) \<Longrightarrow> length xs' = length xs \<and> (ok \<longrightarrow> length ys = length xs)"
  by (auto simp: relocate_each_def split: if_splits option.splits dest: move_each_lengths those_length)

lemma relocate_n_compute:
  "relocate_n T (S @ map Live xs @ S') (length S) (length xs) (D @ replicate (length xs) Raw @ D') (length D)
   = (case relocate_each T xs of
        (ys, xs', True) \<Rightarrow> Returns (S @ map Live xs' @ S', D @ map Live ys @ D')
      | (ys, xs', False) \<Rightarrow> Throws (S @ map Live xs' @ S', D @ replicate (length xs) Raw @ D'))"
  using move_construct_loop_compute [of T S xs S' D "[]" D'] copy_construct_loop_compute [of T S xs S' D "[]" D']
  by (simp add: relocate_n_def relocate_each_def uninitialized_move_n_def uninitialized_copy_n_def
      split: option.splits)

lemma is_Live_simps [simp]: "\<not> is_Live Raw" "is_Live (Live x)" "\<not> is_Live Beyond"
  by (simp_all add: is_Live_def)

lemma not_list_ex_Raw [simp]: "\<not> list_ex is_Live (replicate n Raw)"
  by (simp add: list_ex_iff)

lemma not_list_ex_Beyond [simp]: "\<not> list_ex is_Live (replicate n Beyond)"
  by (simp add: list_ex_iff)

lemma Deallocate_no_objects [simp]: "\<not> list_ex is_Live buf \<Longrightarrow> Deallocate buf rest = rest"
  by (simp add: Deallocate_def)

lemma Deallocate_Raw [simp]: "Deallocate (replicate n Raw) rest = rest"
  by (simp add: Deallocate_def)

subsection \<open>What a request for storage gives\<close>

lemma RawMemory_0 [simp]: "RawMemory T 0 = Some []"
  by (simp add: RawMemory_def Allocate_def)

lemma RawMemory_provides: "provides T n \<Longrightarrow> RawMemory T n = Some (replicate n Raw)"
  by (auto simp: provides_def fits_size_t_def RawMemory_def Allocate_def)

lemma RawMemory_fits:
  "fits_size_t T n \<Longrightarrow> RawMemory T n = None \<or> RawMemory T n = Some (replicate n Raw)"
  by (auto simp: fits_size_t_def RawMemory_def Allocate_def)


lemma wrapped_bytes:
  fixes n s :: nat
  assumes "0 < n" "\<not> (0 < s \<and> n * s < 2 ^ 64)"
  shows "(n * s mod 2 ^ 64) div s < n"
proof (cases "s = 0")
  case True
  with assms(1) show ?thesis by simp
next
  case False
  with assms(2) have "(2 :: nat) ^ 64 \<le> n * s" by simp
  moreover have "n * s mod 2 ^ 64 < (2 :: nat) ^ 64" by simp
  ultimately have "n * s mod 2 ^ 64 < n * s" by (rule less_le_trans [rotated])
  with False show ?thesis
    by (simp add: less_mult_imp_div_less)
qed

lemma RawMemory_all_Raw: "RawMemory T n = Some (replicate n Raw) \<Longrightarrow> provides T n"
proof (cases "n = 0")
  case True
  then show ?thesis by (simp add: provides_def)
next
  case False
  assume a: "RawMemory T n = Some (replicate n Raw)"
  define k where "k = (n * sizeof T mod 2 ^ 64) div sizeof T"
  from a False have new: "operator_new T (n * sizeof T mod 2 ^ 64)"
    and eq: "replicate (min k n) Raw @ replicate (n - k) Beyond = replicate n (Raw :: 'a slot)"
    by (auto simp: RawMemory_def Allocate_def k_def split: if_splits)
  have "\<not> k < n"
  proof
    assume "k < n"
    then have "(replicate (min k n) Raw @ replicate (n - k) Beyond) ! k = (Beyond :: 'a slot)"
      by (simp add: nth_append)
    with eq \<open>k < n\<close> show False by simp
  qed
  have f: "0 < sizeof T \<and> n * sizeof T < 2 ^ 64"
  proof (rule ccontr)
    assume "\<not> (0 < sizeof T \<and> n * sizeof T < 2 ^ 64)"
    with wrapped_bytes [of n "sizeof T"] False have "k < n"
      by (simp add: k_def)
    with \<open>\<not> k < n\<close> show False by simp
  qed
  with new show ?thesis by (simp add: provides_def fits_size_t_def)
qed

text \<open>
  A loop that constructs \<open>n\<close> objects and returns has found storage without an object
  in each of the \<open>n\<close> slots.
\<close>

lemma construct_at_Inr:
  "construct_at buf i x = Inr b \<Longrightarrow> i < length buf \<and> buf ! i = Raw \<and> b = buf[i := Live x]"
  by (auto simp: construct_at_def split: if_splits slot.splits)


lemma copy_construct_loop_Returns_Raw:
  "copy_construct_loop T src first dst f c n = Returns b \<Longrightarrow> i < n
   \<Longrightarrow> c + i < length dst \<and> dst ! (c + i) = Raw"
proof (induction n arbitrary: dst c first i)
  case 0
  then show ?case by simp
next
  case (Suc n)
  from Suc.prems(1) obtain y dst1 where c: "construct_at dst c y = Inr dst1"
    and r: "copy_construct_loop T src (Suc first) dst1 f (Suc c) n = Returns b"
    by (auto split: option.splits sum.splits)
  from construct_at_Inr [OF c] have d: "c < length dst" "dst ! c = Raw" "dst1 = dst[c := Live y]"
    by simp_all
  show ?case
  proof (cases i)
    case 0
    with d show ?thesis by simp
  next
    case (Suc j)
    with Suc.prems(2) have "j < n" by simp
    from Suc.IH [OF r this] d(3) Suc show ?thesis by simp
  qed
qed

lemma move_construct_loop_Returns_Raw:
  "move_construct_loop T src first dst f c n = Returns (s, b) \<Longrightarrow> i < n
   \<Longrightarrow> c + i < length dst \<and> dst ! (c + i) = Raw"
proof (induction n arbitrary: src dst c first i)
  case 0
  then show ?case by simp
next
  case (Suc n)
  from Suc.prems(1) obtain y src1 dst1 where c: "construct_at dst c y = Inr dst1"
    and r: "move_construct_loop T src1 (Suc first) dst1 f (Suc c) n = Returns (s, b)"
    by (auto split: option.splits sum.splits prod.splits)
  from construct_at_Inr [OF c] have d: "c < length dst" "dst ! c = Raw" "dst1 = dst[c := Live y]"
    by simp_all
  show ?case
  proof (cases i)
    case 0
    with d show ?thesis by simp
  next
    case (Suc j)
    with Suc.prems(2) have "j < n" by simp
    from Suc.IH [OF r this] d(3) Suc show ?thesis by simp
  qed
qed

lemma relocate_n_Returns_Raw:
  "relocate_n T src first n dst f = Returns (s, b) \<Longrightarrow> i < n \<Longrightarrow> f + i < length dst \<and> dst ! (f + i) = Raw"
  unfolding relocate_n_def uninitialized_move_n_def uninitialized_copy_n_def
  by (auto split: if_splits outcome.splits
      dest: move_construct_loop_Returns_Raw copy_construct_loop_Returns_Raw)



section \<open>The capacity after growing\<close>

lemma double_wrap:
  fixes s :: nat
  assumes "s < s * 2 mod 2 ^ 64"
  shows "s * 2 mod 2 ^ 64 = s * 2"
proof (rule ccontr)
  assume "s * 2 mod 2 ^ 64 \<noteq> s * 2"
  then have ge: "(2 :: nat) ^ 64 \<le> s * 2"
    by (metis mod_less not_le)
  have "s * 2 mod 2 ^ 64 \<le> s"
  proof (cases "s < 2 ^ 64")
    case True
    from ge have "s * 2 mod 2 ^ 64 = (s * 2 - 2 ^ 64) mod 2 ^ 64"
      by (rule le_mod_geq)
    also have "\<dots> \<le> s * 2 - 2 ^ 64" by (rule mod_less_eq_dividend)
    also from True have "\<dots> \<le> s" by simp
    finally show ?thesis .
  next
    case False
    have "s * 2 mod 2 ^ 64 < (2 :: nat) ^ 64" by simp
    with False show ?thesis by simp
  qed
  with assms show False by simp
qed

lemma request_not_wrapped:
  fixes s :: nat
  assumes "s < (if s = 0 then 1 else s * 2 mod 2 ^ 64)"
  shows "(if s = 0 then 1 else s * 2 mod 2 ^ 64) = max 1 (2 * s)"
proof (cases "s = 0")
  case True
  then show ?thesis by simp
next
  case False
  with assms have "s < s * 2 mod 2 ^ 64" by simp
  from double_wrap [OF this] False show ?thesis by (simp add: mult.commute)
qed

lemma EmplaceBack_grows:
  "Capacity v \<le> m_size v \<Longrightarrow> EmplaceBack T made v = Returns v'
   \<Longrightarrow> Capacity v' = max 1 (2 * m_size v)"
proof -
  assume full: "Capacity v \<le> m_size v" and ret: "EmplaceBack T made v = Returns v'"
  define req where "req = (if m_size v = 0 then 1 else m_size v * 2 mod 2 ^ 64)"
  from full ret have "length (m_data v') = req \<and> m_size v < req"
    unfolding EmplaceBack_def Capacity_def Deallocate_def req_def [symmetric]
    by (auto split: if_splits outcome.splits option.splits sum.splits prod.splits
        dest!: relocate_n_Returns_length construct_at_length RawMemory_length)
  with request_not_wrapped [of "m_size v"] show ?thesis
    by (simp add: req_def Capacity_def)
qed

lemma Emplace_grows:
  "Capacity v \<le> m_size v \<Longrightarrow> Emplace T i made v = Returns v'
   \<Longrightarrow> Capacity v' = max 1 (2 * m_size v)"
proof -
  assume full: "Capacity v \<le> m_size v" and ret: "Emplace T i made v = Returns v'"
  define req where "req = (if m_size v = 0 then 1 else m_size v * 2 mod 2 ^ 64)"
  from full ret obtain b0 x b1 old1 b2 old2 b3 where i: "i \<le> m_size v"
    and b0: "RawMemory T req = Some b0"
    and c: "construct_at b0 i x = Inr b1"
    and r1: "relocate_n T (m_data v) 0 i b1 0 = Returns (old1, b2)"
    and r2: "relocate_n T old1 i (m_size v - i) b2 (i + 1) = Returns (old2, b3)"
    and v': "m_data v' = b3"
    unfolding Emplace_def Capacity_def Deallocate_def req_def [symmetric]
    by (auto split: if_splits outcome.splits option.splits sum.splits prod.splits)
  from RawMemory_length [OF b0] construct_at_length [OF c] relocate_n_Returns_length [OF r1]
    relocate_n_Returns_length [OF r2] v'
  have l: "length b1 = req" "length b2 = req" "Capacity v' = req"
    by (simp_all add: Capacity_def)
  have "m_size v < req"
  proof (cases "i = m_size v")
    case True
    with construct_at_Inr [OF c] RawMemory_length [OF b0] show ?thesis by simp
  next
    case False
    with i have "m_size v - i - 1 < m_size v - i" by simp
    from relocate_n_Returns_Raw [OF r2 this] l i False show ?thesis by simp
  qed
  with request_not_wrapped [of "m_size v"] l show ?thesis
    by (simp add: req_def)
qed

lemma fits_no_wrap: "fits_size_t T n \<Longrightarrow> n mod 2 ^ 64 = n"
proof -
  assume "fits_size_t T n"
  then have "0 < sizeof T" "n * sizeof T < 2 ^ 64" by (simp_all add: fits_size_t_def)
  then have "n < 2 ^ 64"
    by (metis le_less_trans mult.right_neutral mult_le_mono2 Suc_leI One_nat_def)
  then show ?thesis by simp
qed

lemma provides_no_wrap: "provides T n \<Longrightarrow> n mod 2 ^ 64 = n"
  using fits_no_wrap [of T n] by (auto simp: provides_def)

lemma request_fits:
  "fits_size_t T (max 1 (2 * s)) \<Longrightarrow> (if s = 0 then 1 else s * 2 mod 2 ^ 64) = max 1 (2 * s)"
proof (cases "s = 0")
  case True
  then show ?thesis by simp
next
  case False
  assume "fits_size_t T (max 1 (2 * s))"
  with False have "fits_size_t T (s * 2)"
    by (simp add: mult.commute max_def)
  from fits_no_wrap [OF this] False show ?thesis by (simp add: mult.commute max_def)
qed

section \<open>What Reserve computes\<close>

lemma Reserve_no_memory: "Capacity v < n \<Longrightarrow> RawMemory T n = None \<Longrightarrow> Reserve T n v = Throws v"
  by (simp add: Reserve_def)

lemma Reserve_compute_room:
  assumes "length xs + m < n" "RawMemory T n = Some (replicate (length xs) Raw @ D')"
    and "\<not> list_ex is_Live D'"
  shows "Reserve T n (vec xs m)
   = (case relocate_each T xs of
        (ys, xs', True) \<Rightarrow> Returns \<lparr>m_data = map Live ys @ D', m_size = length xs\<rparr>
      | (ys, xs', False) \<Rightarrow> Throws (vec xs' m))"
proof -
  obtain ys xs' ok where r: "relocate_each T xs = (ys, xs', ok)"
    by (cases "relocate_each T xs") auto
  from relocate_each_lengths [OF r] have l: "length xs' = length xs" "ok \<Longrightarrow> length ys = length xs"
    by auto
  have rel: "relocate_n T (m_data (vec xs m)) 0 (length xs) (replicate (length xs) Raw @ D') 0
     = (if ok then Returns (map Live xs' @ replicate m Raw, map Live ys @ D')
        else Throws (map Live xs' @ replicate m Raw, replicate (length xs) Raw @ D'))"
    using relocate_n_compute [of T "[]" xs "replicate m Raw" "[]" D'] r
    by (simp add: vec_def)
  have d: "destroy_n (map Live xs' @ replicate m Raw) 0 (length xs) = Inr (replicate (length xs) Raw @ replicate m Raw)"
    using destroy_n_live [of "[]" xs' "replicate m Raw"] l by simp
  have f: "\<not> list_ex is_Live (replicate (length xs) Raw @ D')"
    using assms(3) by (auto simp: list_ex_iff)
  show ?thesis
    using assms rel d l r f
    by (simp add: Reserve_def vec_def Capacity_def list_ex_iff flip: replicate_add)
qed

lemma Reserve_compute:
  assumes "length xs + m < n" "provides T n"
  shows "Reserve T n (vec xs m)
   = (case relocate_each T xs of
        (ys, xs', True) \<Rightarrow> Returns (vec ys (n - length xs))
      | (ys, xs', False) \<Rightarrow> Throws (vec xs' m))"
proof -
  obtain ys xs' ok where r: "relocate_each T xs = (ys, xs', ok)"
    by (cases "relocate_each T xs") auto
  from relocate_each_lengths [OF r] have l: "ok \<Longrightarrow> length ys = length xs"
    by auto
  have n: "replicate n (Raw :: 'a slot) = replicate (length xs) Raw @ replicate (n - length xs) Raw"
    using assms by (simp flip: replicate_add)
  from RawMemory_provides [OF assms(2)] n
  have "RawMemory T n = Some (replicate (length xs) Raw @ replicate (n - length xs) Raw)"
    by simp
  from Reserve_compute_room [OF assms(1) this] r l show ?thesis
    by (cases ok) (simp_all add: vec_def)
qed








lemma those_map_the: "those (map f xs) = Some ys \<Longrightarrow> ys = map (\<lambda>x. the (f x)) xs"
  by (induction xs arbitrary: ys) (auto split: option.splits)

lemma those_None_iff: "those (map f xs) = None \<longleftrightarrow> (\<exists>x\<in>set xs. f x = None)"
  by (induction xs) (auto split: option.splits)


lemma move_each_ok: "snd (snd (move_each T xs)) \<longleftrightarrow> (\<forall>x\<in>set xs. move_ctor T x \<noteq> None)"
  by (induction xs) (auto split: option.splits prod.splits)


lemma relocate_each_ok:
  "snd (snd (relocate_each T xs)) \<longleftrightarrow>
     (if relocates_by_move T then \<forall>x\<in>set xs. move_ctor T x \<noteq> None
      else \<forall>x\<in>set xs. copy_ctor T x \<noteq> None)"
  using those_None_iff [of "copy_ctor T" xs]
  by (auto simp: relocate_each_def move_each_ok split: option.splits)

lemma relocate_each_copy_sources:
  "\<not> relocates_by_move T \<Longrightarrow> relocate_each T xs = (ys, xs', ok) \<Longrightarrow> xs' = xs"
  by (auto simp: relocate_each_def split: option.splits)



section \<open>Reserve\<close>

lemma provides_of_fits: "fits_size_t T n \<Longrightarrow> RawMemory T n = Some b \<Longrightarrow> provides T n"
  using RawMemory_fits [of T n] RawMemory_all_Raw [of T n] by auto


text \<open>
  What a request that does not fit \<^verbatim>\<open>size_t\<close> does, and what a request that
  \<^verbatim>\<open>operator new\<close> refuses does. For a type of 4 bytes, \<^verbatim>\<open>Reserve(2^62)\<close> asks for
  \<open>2^64 mod 2^64 = 0\<close> bytes: on an empty vector it returns with capacity \<open>2^62\<close> and no
  storage behind it, on a vector with an element it constructs outside the storage.
  When \<^verbatim>\<open>operator new\<close> throws, \<^verbatim>\<open>Reserve\<close> throws and the vector is as it was.
\<close>

lemma Reserve_wrapped_request:
  "Reserve plain (2 ^ 62) \<lparr>m_data = [], m_size = 0\<rparr>
     = Returns \<lparr>m_data = replicate (2 ^ 62) Beyond, m_size = 0\<rparr>"
  "Reserve plain (2 ^ 62) \<lparr>m_data = [Live 1], m_size = 1\<rparr> = Violation Construct_Outside"
  "Reserve no_memory 5 \<lparr>m_data = [Live 1], m_size = 1\<rparr> = Throws \<lparr>m_data = [Live 1], m_size = 1\<rparr>"
  by (simp_all add: Reserve_def Capacity_def RawMemory_def Allocate_def plain_def no_memory_def
      relocate_n_def relocates_by_move_def uninitialized_move_n_def obj_at_def slot_at_def
      construct_at_def list_ex_iff)



section \<open>Resize\<close>

lemma value_each_0 [simp]: "value_each T 0 = Some []"
  by (simp add: value_each_def)

lemma value_each_length: "value_each T n = Some ds \<Longrightarrow> length ds = n"
  unfolding value_each_def by (drule those_length) simp

lemma value_each_None_iff: "value_each T n = None \<longleftrightarrow> (\<exists>k<n. value_ctor T k = None)"
  by (auto simp: value_each_def those_None_iff)

lemma value_each_nth: "value_each T n = Some ds \<Longrightarrow> k < n \<Longrightarrow> value_ctor T k = Some (ds ! k)"
proof -
  assume a: "value_each T n = Some ds" and k: "k < n"
  from a have "ds = map (\<lambda>k. the (value_ctor T k)) [0..<n]"
    unfolding value_each_def by (rule those_map_the)
  moreover from a value_each_None_iff [of T n] k have "value_ctor T k \<noteq> None" by auto
  ultimately show ?thesis using k by auto
qed

lemma uninitialized_value_construct_n_vec:
  "uninitialized_value_construct_n T (map Live xs @ replicate n Raw @ R) (length xs) n
   = (case value_each T n of
        Some ds \<Rightarrow> Returns (map Live (xs @ ds) @ R)
      | None \<Rightarrow> Throws (map Live xs @ replicate n Raw @ R))"
  using value_construct_loop_compute [of T "map Live xs" "[]" n R]
  by (simp add: uninitialized_value_construct_n_def value_each_def split: option.splits)

lemma uninitialized_value_construct_n_0 [simp]:
  "uninitialized_value_construct_n T buf f 0 = Returns buf"
  by (simp add: uninitialized_value_construct_n_def)

lemma Resize_shrink:
  assumes "zs \<noteq> []"
  shows "Resize T (length ys) (vec (ys @ zs) m) = Returns (vec ys (length zs + m))"
proof -
  have "destroy_n (map Live ys @ map Live zs @ replicate m Raw) (length (map Live ys)) (length zs)
        = Inr (map Live ys @ replicate (length zs) Raw @ replicate m Raw)"
    by (rule destroy_n_live)
  then have "destroy_n (map Live (ys @ zs) @ replicate m Raw) (length ys) (length zs)
        = Inr (map Live ys @ replicate (length zs + m) Raw)"
    by (simp add: replicate_add)
  with assms show ?thesis
    by (simp add: Resize_def vec_def)
qed

lemma Resize_within:
  assumes "k \<le> m"
  shows "Resize T (length xs + k) (vec xs m)
   = (case value_each T k of
        Some ds \<Rightarrow> Returns (vec (xs @ ds) (m - k))
      | None \<Rightarrow> Throws (vec xs m))"
proof -
  have m: "replicate m (Raw :: 'a slot) = replicate k Raw @ replicate (m - k) Raw"
    using assms by (simp only: flip: replicate_add) simp
  have u: "uninitialized_value_construct_n T (map Live xs @ replicate m Raw) (length xs) k
    = (case value_each T k of
        Some ds \<Rightarrow> Returns (map Live (xs @ ds) @ replicate (m - k) Raw)
      | None \<Rightarrow> Throws (map Live xs @ replicate m Raw))"
    using uninitialized_value_construct_n_vec [of T xs k "replicate (m - k) Raw"]
    by (simp only: m [symmetric])
  show ?thesis
  proof (cases "value_each T k")
    case None
    with u assms show ?thesis by (simp add: Resize_def vec_def Capacity_def)
  next
    case (Some ds)
    with u assms value_each_length [OF Some] show ?thesis
      by (simp add: Resize_def vec_def Capacity_def)
  qed
qed

lemma Resize_no_memory:
  "length xs + m < n \<Longrightarrow> RawMemory T n = None \<Longrightarrow> Resize T n (vec xs m) = Throws (vec xs m)"
  by (simp add: Resize_def Reserve_def)

lemma Resize_beyond:
  assumes "length xs + m < n" "provides T n"
  shows "Resize T n (vec xs m)
   = (case relocate_each T xs of
        (ys, xs', False) \<Rightarrow> Throws (vec xs' m)
      | (ys, xs', True) \<Rightarrow>
          (case value_each T (n - length xs) of
             Some ds \<Rightarrow> Returns (vec (ys @ ds) 0)
           | None \<Rightarrow> Throws (vec ys (n - length xs))))"
proof -
  obtain ys xs' ok where r: "relocate_each T xs = (ys, xs', ok)"
    by (cases "relocate_each T xs") auto
  show ?thesis
  proof (cases ok)
    case False
    with r Reserve_compute [OF assms, of ] assms show ?thesis
      by (simp add: Resize_def)
  next
    case True
    with relocate_each_lengths [OF r] have l: "length ys = length xs" by simp
    from True r Reserve_compute [OF assms] have R: "Reserve T n (vec xs m) = Returns (vec ys (n - length xs))"
      by simp
    define k where "k = n - length xs"
    have u: "uninitialized_value_construct_n T (map Live ys @ replicate k Raw) (length ys) k
      = (case value_each T k of
        Some ds \<Rightarrow> Returns (map Live (ys @ ds))
      | None \<Rightarrow> Throws (map Live ys @ replicate k Raw))"
      using uninitialized_value_construct_n_vec [of T ys k "[]"] by (cases "value_each T k") simp_all
    from assms have c: "Capacity (vec xs m) < n" "\<not> n < length xs" by simp_all
    show ?thesis
    proof (cases "value_each T k")
      case None
      with True r R l c u show ?thesis
        by (simp add: Resize_def vec_def k_def [symmetric])
    next
      case (Some ds)
      with True r R l c u value_each_length [OF Some] assms(1) show ?thesis
        by (simp add: Resize_def vec_def k_def [symmetric]) (simp add: k_def)
    qed
  qed
qed

lemma m_data_vec: "m_data (vec xs m) = map Live xs @ replicate m Raw"
  by (simp add: vec_def)






section \<open>Resizing beyond the capacity\<close>



section \<open>EmplaceBack\<close>

lemma Deallocate_Raw_around [simp]:
  "Deallocate (replicate n Raw @ Raw # replicate k Raw) rest = rest"
  by (auto simp: Deallocate_def list_ex_iff)

lemma EmplaceBack_no_memory:
  "Capacity v \<le> m_size v \<Longrightarrow> RawMemory T (if m_size v = 0 then 1 else m_size v * 2 mod 2 ^ 64) = None
   \<Longrightarrow> EmplaceBack T made v = Throws v"
  by (simp add: EmplaceBack_def)

lemma EmplaceBack_empty:
  assumes "provides T 1"
  shows "EmplaceBack T (Some x) (vec [] 0) = Returns (vec [x] 0)"
proof -
  from RawMemory_provides [OF assms] have "RawMemory T (Suc 0) = Some [Raw]" by simp
  then show ?thesis
    by (simp add: EmplaceBack_def vec_def Capacity_def construct_at_def relocate_n_def
        uninitialized_move_n_def uninitialized_copy_n_def Deallocate_def)
qed

lemma EmplaceBack_full:
  assumes "xs \<noteq> []" "provides T (length xs * 2)"
  shows "EmplaceBack T (Some x) (vec xs 0)
   = (case relocate_each T xs of
        (ys, xs', True) \<Rightarrow> Returns (vec (ys @ [x]) (length xs - 1))
      | (ys, xs', False) \<Rightarrow> Throws (vec xs' 0))"
proof -
  define r where "r = length xs - 1"
  obtain ys xs' ok where e: "relocate_each T xs = (ys, xs', ok)"
    by (cases "relocate_each T xs") auto
  from relocate_each_lengths [OF e] have l: "length xs' = length xs" "ok \<Longrightarrow> length ys = length xs"
    by auto
  from assms have eq: "length xs * 2 = length xs + Suc r"
    by (cases xs) (simp_all add: r_def)
  have "RawMemory T (length xs * 2) = Some (replicate (length xs) Raw @ Raw # replicate r Raw)"
    using RawMemory_provides [OF assms(2)] by (simp add: eq replicate_add replicate_append_same)
  with provides_no_wrap [OF assms(2)]
  have a: "RawMemory T (length xs * 2 mod 2 ^ 64) = Some (replicate (length xs) Raw @ Raw # replicate r Raw)"
    by simp
  have c: "construct_at (replicate (length xs) Raw @ Raw # replicate r Raw) (length xs) x
           = Inr (replicate (length xs) Raw @ Live x # replicate r Raw)"
    using construct_at_mid [of "replicate (length xs) Raw" "replicate r Raw" x] by simp
  have rel: "relocate_n T (map Live xs) 0 (length xs) (replicate (length xs) Raw @ Live x # replicate r Raw) 0
     = (if ok then Returns (map Live xs', map Live ys @ Live x # replicate r Raw)
        else Throws (map Live xs', replicate (length xs) Raw @ Live x # replicate r Raw))"
    using relocate_n_compute [of T "[]" xs "[]" "[]" "Live x # replicate r Raw"] e by simp
  have d1: "destroy_at (replicate (length xs) Raw @ Live x # replicate r Raw) (length xs)
           = Inr (replicate (length xs) Raw @ Raw # replicate r Raw)"
    using destroy_at_mid [of "replicate (length xs) Raw" x "replicate r Raw"] by simp
  have d2: "destroy_n (map Live xs') 0 (length xs) = Inr (replicate (length xs) Raw)"
    using destroy_n_live [of "[]" xs' "[]"] l by simp
  show ?thesis
  proof (cases ok)
    case True
    with assms a c rel d2 l e show ?thesis
      by (simp add: EmplaceBack_def vec_def Capacity_def r_def)
  next
    case False
    with assms a c rel d1 l e show ?thesis
      by (simp add: EmplaceBack_def vec_def Capacity_def r_def)
  qed
qed

lemma EmplaceBack_spare: "EmplaceBack T (Some x) (vec xs (Suc m)) = Returns (vec (xs @ [x]) m)"
  using construct_at_mid [of "map Live xs" "replicate m Raw" x]
  by (simp add: EmplaceBack_def vec_def Capacity_def)

lemma valid_full: "valid v \<Longrightarrow> Capacity v \<le> Size v \<Longrightarrow> v = vec (elems v) 0"
  using valid_shape [of v] by (simp add: Size_def)

text \<open>
  C1, as the code has it. Let the vector satisfy the invariant and have no slot to
  spare, so that \<^verbatim>\<open>EmplaceBack\<close> reallocates, and let the byte count of the new
  block, of twice the size, fit \<^verbatim>\<open>size_t\<close>. If the element type is relocated by
  copying (it is copy-constructible and not nothrow-move-constructible) and the copy of
  some element throws, the call throws and the vector is what it was: same block, same
  size, same values; the new element has been destroyed and the new block released
  without an object in it (otherwise the outcome would be a violation). If the type is
  relocated by moving and the move of some element throws, the call throws, size and
  capacity are the old ones and the invariant holds, but the elements before the one
  whose move threw keep what the move left in them; only when \<^verbatim>\<open>operator new\<close> has
  thrown before, so that no relocation took place, are the elements the old ones.
\<close>

theorem EmplaceBack_relocation_throws:
  assumes "valid v" "Capacity v \<le> Size v" "fits_size_t T (max 1 (2 * Size v))"
  shows "(copy_constructible T \<and> \<not> nothrow_move_constructible T
            \<and> (\<exists>y\<in>set (elems v). copy_ctor T y = None)
          \<longrightarrow> EmplaceBack T (Some x) v = Throws v)
       \<and> ((nothrow_move_constructible T \<or> \<not> copy_constructible T)
            \<and> (\<exists>y\<in>set (elems v). move_ctor T y = None)
          \<longrightarrow> (\<exists>v'. EmplaceBack T (Some x) v = Throws v' \<and> valid v'
                    \<and> Size v' = Size v \<and> Capacity v' = Capacity v
                    \<and> elems v' = (if provides T (max 1 (2 * Size v))
                                  then fst (snd (move_each T (elems v))) else elems v)))"
proof -
  define xs where "xs = elems v"
  from valid_full [OF assms(1,2)] have v: "v = vec xs 0" by (simp add: xs_def)
  have ms: "m_size v = length xs" by (subst v) simp
  from assms(2) have full: "Capacity v \<le> m_size v" by (simp add: Size_def)
  from assms(3) have f: "fits_size_t T (max 1 (2 * m_size v))" by (simp add: Size_def)
  obtain ys xs' ok where e: "relocate_each T xs = (ys, xs', ok)"
    by (cases "relocate_each T xs") auto
  from relocate_each_lengths [OF e] have l: "length xs' = length xs" by simp
  have ne: "xs \<noteq> []" if "\<not> ok"
    using that relocate_each_ok [of T xs] e by (auto split: if_splits)
  have nm: "EmplaceBack T (Some x) v = Throws v" if "\<not> provides T (max 1 (2 * Size v))"
  proof -
    from that provides_of_fits [OF f] have "RawMemory T (max 1 (2 * m_size v)) = None"
      by (cases "RawMemory T (max 1 (2 * m_size v))") (auto simp: Size_def)
    with request_fits [OF f] have "RawMemory T (if m_size v = 0 then 1 else m_size v * 2 mod 2 ^ 64) = None"
      by simp
    with full show ?thesis by (rule EmplaceBack_no_memory)
  qed
  have t: "EmplaceBack T (Some x) v = Throws (vec xs' 0)" if "\<not> ok" "provides T (max 1 (2 * Size v))"
  proof -
    from ne [OF that(1)] have "max 1 (2 * length xs) = length xs * 2"
      by (cases xs) simp_all
    moreover from that(2) ms have "provides T (max 1 (2 * length xs))"
      by (simp add: Size_def)
    ultimately have "provides T (length xs * 2)" by simp
    from EmplaceBack_full [OF ne [OF that(1)] this, of x] e that(1) show ?thesis
      by (simp add: v)
  qed
  have 1: "EmplaceBack T (Some x) v = Throws v"
    if "copy_constructible T \<and> \<not> nothrow_move_constructible T \<and> (\<exists>y\<in>set (elems v). copy_ctor T y = None)"
  proof (cases "provides T (max 1 (2 * Size v))")
    case False
    then show ?thesis by (rule nm)
  next
    case True
    from that have m: "\<not> relocates_by_move T" by (simp add: relocates_by_move_def)
    with that relocate_each_ok [of T xs] e have "\<not> ok" by (auto simp: xs_def)
    with t [OF _ True] relocate_each_copy_sources [OF m e] show ?thesis by (simp add: v)
  qed
  have 2: "\<exists>v'. EmplaceBack T (Some x) v = Throws v' \<and> valid v'
                    \<and> Size v' = Size v \<and> Capacity v' = Capacity v
                    \<and> elems v' = (if provides T (max 1 (2 * Size v))
                                  then fst (snd (move_each T (elems v))) else elems v)"
    if "(nothrow_move_constructible T \<or> \<not> copy_constructible T) \<and> (\<exists>y\<in>set (elems v). move_ctor T y = None)"
  proof (cases "provides T (max 1 (2 * Size v))")
    case False
    with nm [OF False] assms(1) show ?thesis by simp
  next
    case True
    from that have m: "relocates_by_move T" by (simp add: relocates_by_move_def)
    with that relocate_each_ok [of T xs] e have "\<not> ok" by (auto simp: xs_def)
    moreover from m e have "xs' = fst (snd (move_each T xs))" by (simp add: relocate_each_def)
    ultimately show ?thesis using t [OF _ True] l True by (simp add: v Size_def)
  qed
  from 1 2 show ?thesis by blast
qed

theorem EmplaceBack_relocation_throws_witness:
  "valid \<lparr>m_data = [Live (1::int), Live 2], m_size = 2\<rparr>
   \<and> Capacity \<lparr>m_data = [Live (1::int), Live 2], m_size = 2\<rparr> \<le> Size \<lparr>m_data = [Live (1::int), Live 2], m_size = 2\<rparr>
   \<and> fits_size_t copy_throws (max 1 (2 * Size \<lparr>m_data = [Live (1::int), Live 2], m_size = 2\<rparr>))
   \<and> fits_size_t move_only (max 1 (2 * Size \<lparr>m_data = [Live (1::int), Live 2], m_size = 2\<rparr>))
   \<and> provides move_only (max 1 (2 * Size \<lparr>m_data = [Live (1::int), Live 2], m_size = 2\<rparr>))
   \<and> copy_constructible copy_throws \<and> \<not> nothrow_move_constructible copy_throws
   \<and> (\<exists>y\<in>set (elems \<lparr>m_data = [Live (1::int), Live 2], m_size = 2\<rparr>). copy_ctor copy_throws y = None)
   \<and> EmplaceBack copy_throws (Some 3) \<lparr>m_data = [Live 1, Live 2], m_size = 2\<rparr>
       = Throws \<lparr>m_data = [Live 1, Live 2], m_size = 2\<rparr>
   \<and> (nothrow_move_constructible move_only \<or> \<not> copy_constructible move_only)
   \<and> (\<exists>y\<in>set (elems \<lparr>m_data = [Live (1::int), Live 2], m_size = 2\<rparr>). move_ctor move_only y = None)
   \<and> (\<exists>v'. EmplaceBack move_only (Some 3) \<lparr>m_data = [Live 1, Live 2], m_size = 2\<rparr> = Throws v'
          \<and> valid v' \<and> Size v' = Size \<lparr>m_data = [Live (1::int), Live 2], m_size = 2\<rparr>
          \<and> Capacity v' = Capacity \<lparr>m_data = [Live (1::int), Live 2], m_size = 2\<rparr>
          \<and> elems v' = fst (snd (move_each move_only (elems \<lparr>m_data = [Live (1::int), Live 2], m_size = 2\<rparr>))))"
proof -
  have w: "valid \<lparr>m_data = [Live (1::int), Live 2], m_size = 2\<rparr>"
    by (simp add: valid_def Capacity_def is_Live_def is_Raw_def)
  have c: "Capacity \<lparr>m_data = [Live (1::int), Live 2], m_size = 2\<rparr> \<le> Size \<lparr>m_data = [Live (1::int), Live 2], m_size = 2\<rparr>"
    by (simp add: Capacity_def Size_def)
  have fc: "fits_size_t copy_throws (max 1 (2 * Size \<lparr>m_data = [Live (1::int), Live 2], m_size = 2\<rparr>))"
    and fm: "fits_size_t move_only (max 1 (2 * Size \<lparr>m_data = [Live (1::int), Live 2], m_size = 2\<rparr>))"
    and pm: "provides move_only (max 1 (2 * Size \<lparr>m_data = [Live (1::int), Live 2], m_size = 2\<rparr>))"
    by (simp_all add: provides_def fits_size_t_def Size_def copy_throws_def move_only_def)
  have t: "copy_constructible copy_throws \<and> \<not> nothrow_move_constructible copy_throws
     \<and> (\<exists>y\<in>set (elems \<lparr>m_data = [Live (1::int), Live 2], m_size = 2\<rparr>). copy_ctor copy_throws y = None)"
    by (simp add: copy_throws_def elems_def)
  have m: "(nothrow_move_constructible move_only \<or> \<not> copy_constructible move_only)
     \<and> (\<exists>y\<in>set (elems \<lparr>m_data = [Live (1::int), Live 2], m_size = 2\<rparr>). move_ctor move_only y = None)"
    by (simp add: move_only_def elems_def)
  from EmplaceBack_relocation_throws [OF w c fc, of 3] t
  have a: "EmplaceBack copy_throws (Some 3) \<lparr>m_data = [Live 1, Live 2], m_size = 2\<rparr>
       = Throws \<lparr>m_data = [Live 1, Live 2], m_size = 2\<rparr>"
    by blast
  from EmplaceBack_relocation_throws [OF w c fm, of 3] m pm
  have b: "\<exists>v'. EmplaceBack move_only (Some 3) \<lparr>m_data = [Live 1, Live 2], m_size = 2\<rparr> = Throws v'
          \<and> valid v' \<and> Size v' = Size \<lparr>m_data = [Live (1::int), Live 2], m_size = 2\<rparr>
          \<and> Capacity v' = Capacity \<lparr>m_data = [Live (1::int), Live 2], m_size = 2\<rparr>
          \<and> elems v' = fst (snd (move_each move_only (elems \<lparr>m_data = [Live (1::int), Live 2], m_size = 2\<rparr>)))"
    by auto
  from w c fc fm pm t a m b show ?thesis by blast
qed

text \<open>
  C1 as stated fails for a type relocated by moving: with the elements 1 and 2 and no
  slot to spare, the relocation moves 1, throws on 2, and \<^verbatim>\<open>EmplaceBack\<close> leaves the
  elements 0 and 2.
\<close>

theorem EmplaceBack_move_only_changes_elements:
  "Capacity \<lparr>m_data = [Live (1::int), Live 2], m_size = 2\<rparr> \<le> Size \<lparr>m_data = [Live (1::int), Live 2], m_size = 2\<rparr>
   \<and> relocate_n move_only [Live 1, Live 2] 0 2 [Raw, Raw, Live 3, Raw] 0
       = Throws ([Live 0, Live 2], [Raw, Raw, Live 3, Raw])
   \<and> EmplaceBack move_only (Some 3) \<lparr>m_data = [Live 1, Live 2], m_size = 2\<rparr>
       = Throws \<lparr>m_data = [Live 0, Live 2], m_size = 2\<rparr>
   \<and> elems \<lparr>m_data = [Live (0::int), Live 2], m_size = 2\<rparr> \<noteq> elems \<lparr>m_data = [Live (1::int), Live 2], m_size = 2\<rparr>"
  by code_simp


section \<open>Growth\<close>

text \<open>
  C5. When \<^verbatim>\<open>EmplaceBack\<close>, either \<^verbatim>\<open>PushBack\<close> or \<^verbatim>\<open>Emplace\<close> finds the capacity used
  up and returns, the new capacity is \<open>max 1 (2 * size)\<close>. Reserving 2 in an empty
  vector of integers and pushing back \<open>a\<close>, \<open>b\<close>, \<open>c\<close> gives capacity 4 and the
  elements \<open>a\<close>, \<open>b\<close>, \<open>c\<close> in this order.
\<close>

theorem growth_doubles:
  "(Capacity v \<le> m_size v \<and> EmplaceBack T made v = Returns v'
      \<longrightarrow> Capacity v' = max 1 (2 * m_size v))
   \<and> (Capacity v \<le> m_size v \<and> PushBack T x v = Returns v'
      \<longrightarrow> Capacity v' = max 1 (2 * m_size v))
   \<and> (Capacity v \<le> m_size v \<and> PushBack_rvalue T x v = Returns v'
      \<longrightarrow> Capacity v' = max 1 (2 * m_size v))
   \<and> (Capacity v \<le> m_size v \<and> Emplace T i made v = Returns v'
      \<longrightarrow> Capacity v' = max 1 (2 * m_size v))
   \<and> (\<exists>w. then_call (then_call (then_call (Reserve plain 2 Vector_default) (PushBack plain a))
                (PushBack plain b)) (PushBack plain c) = Returns w
          \<and> Capacity w = 4 \<and> Size w = 3 \<and> elems w = [a, b, c])"
proof -
  have pr: "provides plain n" if "n * 4 < 2 ^ 64" for n
    using that by (simp add: provides_def fits_size_t_def plain_def)
  have re: "relocate_each plain xs = (xs, xs, True)" for xs
  proof -
    have "move_each plain xs = (xs, xs, True)"
      by (induction xs) (simp_all add: plain_def)
    then show ?thesis by (simp add: relocate_each_def relocates_by_move_def plain_def)
  qed
  have cc: "copy_ctor plain y = Some y" for y
    by (simp add: plain_def)
  have "Reserve plain 2 (vec [] 0) = Returns (vec [] 2)"
    using Reserve_compute [of "[]" 0 2 plain] pr [of 2] re [of "[]"] by simp
  then have r: "Reserve plain 2 Vector_default = Returns (vec [] (Suc (Suc 0)))"
    by (simp add: Vector_default_def vec_def numeral_2_eq_2)
  have p1: "PushBack plain a (vec [] (Suc (Suc 0))) = Returns (vec [a] (Suc 0))"
    using EmplaceBack_spare [of plain a "[]" "Suc 0"] by (simp add: PushBack_def cc)
  have p2: "PushBack plain b (vec [a] (Suc 0)) = Returns (vec [a, b] 0)"
    using EmplaceBack_spare [of plain b "[a]" 0] by (simp add: PushBack_def cc)
  have p3: "PushBack plain c (vec [a, b] 0) = Returns (vec [a, b, c] 1)"
    using EmplaceBack_full [of "[a, b]" plain c] pr [of 4] re [of "[a, b]"] by (simp add: PushBack_def cc)
  have "then_call (then_call (then_call (Reserve plain 2 Vector_default) (PushBack plain a))
          (PushBack plain b)) (PushBack plain c)
        = Returns (vec [a, b, c] 1)"
    by (simp add: then_call_def r p1 p2 p3)
  then have "\<exists>w. then_call (then_call (then_call (Reserve plain 2 Vector_default) (PushBack plain a))
                (PushBack plain b)) (PushBack plain c) = Returns w
          \<and> Capacity w = 4 \<and> Size w = 3 \<and> elems w = [a, b, c]"
    by (simp add: Size_def)
  then show ?thesis
    using EmplaceBack_grows [of v T made v'] EmplaceBack_grows [of v T "copy_ctor T x" v']
      EmplaceBack_grows [of v T "map_option fst (move_ctor T x)" v'] Emplace_grows [of v T i made v']
    unfolding PushBack_def PushBack_rvalue_def by blast
qed

theorem growth_doubles_witness:
  "Capacity \<lparr>m_data = [Live (1::int), Live 2], m_size = 2\<rparr> \<le> m_size \<lparr>m_data = [Live (1::int), Live 2], m_size = 2\<rparr>
   \<and> EmplaceBack plain (Some 3) \<lparr>m_data = [Live 1, Live 2], m_size = 2\<rparr>
       = Returns \<lparr>m_data = [Live 1, Live 2, Live 3, Raw], m_size = 3\<rparr>
   \<and> PushBack plain 3 \<lparr>m_data = [Live 1, Live 2], m_size = 2\<rparr>
       = Returns \<lparr>m_data = [Live 1, Live 2, Live 3, Raw], m_size = 3\<rparr>
   \<and> PushBack_rvalue plain 3 \<lparr>m_data = [Live 1, Live 2], m_size = 2\<rparr>
       = Returns \<lparr>m_data = [Live 1, Live 2, Live 3, Raw], m_size = 3\<rparr>
   \<and> Emplace plain 1 (Some 3) \<lparr>m_data = [Live 1, Live 2], m_size = 2\<rparr>
       = Returns \<lparr>m_data = [Live 1, Live 3, Live 2, Raw], m_size = 3\<rparr>
   \<and> Capacity \<lparr>m_data = [Live (1::int), Live 2, Live 3, Raw], m_size = 3\<rparr> = max 1 (2 * 2)
   \<and> Capacity \<lparr>m_data = [Live (1::int), Live 3, Live 2, Raw], m_size = 3\<rparr> = max 1 (2 * 2)"
proof -
  have c: "Capacity \<lparr>m_data = [Live (1::int), Live 2], m_size = 2\<rparr> \<le> m_size \<lparr>m_data = [Live (1::int), Live 2], m_size = 2\<rparr>"
    by (simp add: Capacity_def)
  have e: "EmplaceBack plain (Some 3) \<lparr>m_data = [Live 1, Live 2], m_size = 2\<rparr>
       = Returns \<lparr>m_data = [Live 1, Live 2, Live 3, Raw], m_size = 3\<rparr>"
    by code_simp
  have p: "PushBack plain 3 \<lparr>m_data = [Live 1, Live 2], m_size = 2\<rparr>
       = Returns \<lparr>m_data = [Live 1, Live 2, Live 3, Raw], m_size = 3\<rparr>"
    by code_simp
  have q: "PushBack_rvalue plain 3 \<lparr>m_data = [Live 1, Live 2], m_size = 2\<rparr>
       = Returns \<lparr>m_data = [Live 1, Live 2, Live 3, Raw], m_size = 3\<rparr>"
    by code_simp
  have m: "Emplace plain 1 (Some 3) \<lparr>m_data = [Live 1, Live 2], m_size = 2\<rparr>
       = Returns \<lparr>m_data = [Live 1, Live 3, Live 2, Raw], m_size = 3\<rparr>"
    by code_simp
  from c e p q m
    growth_doubles [of "\<lparr>m_data = [Live 1, Live 2], m_size = 2\<rparr>" plain "Some 3"
      "\<lparr>m_data = [Live 1, Live 2, Live 3, Raw], m_size = 3\<rparr>" 3 1 0 0 0]
    growth_doubles [of "\<lparr>m_data = [Live 1, Live 2], m_size = 2\<rparr>" plain "Some 3"
      "\<lparr>m_data = [Live 1, Live 3, Live 2, Raw], m_size = 3\<rparr>" 3 1 0 0 0]
  show ?thesis by simp
qed

section \<open>Emplace with no slot to spare\<close>

lemma destroy_n_Raw_first [simp]: "destroy_n (Raw # buf) 0 (Suc n) = Inl Destroy_No_Object"
  by (simp add: destroy_at_def slot_at_def)

lemma Emplace_no_memory:
  "Capacity v \<le> m_size v \<Longrightarrow> i \<le> m_size v
   \<Longrightarrow> RawMemory T (if m_size v = 0 then 1 else m_size v * 2 mod 2 ^ 64) = None
   \<Longrightarrow> Emplace T i made v = Throws v"
  by (simp add: Emplace_def)

lemma Emplace_empty:
  assumes "provides T 1"
  shows "Emplace T 0 (Some x) (vec [] 0) = Returns (vec [x] 0)"
proof -
  from RawMemory_provides [OF assms] have "RawMemory T (Suc 0) = Some [Raw]" by simp
  then show ?thesis
    by (simp add: Emplace_def vec_def Capacity_def construct_at_def relocate_n_def
        uninitialized_move_n_def uninitialized_copy_n_def Deallocate_def)
qed

lemma Emplace_full:
  assumes "xs1 @ xs2 \<noteq> []" "provides T (length (xs1 @ xs2) * 2)"
  shows "Emplace T (length xs1) (Some x) (vec (xs1 @ xs2) 0)
   = (case relocate_each T xs1 of
        (ys1, xs1', False) \<Rightarrow> Violation Destroy_No_Object
      | (ys1, xs1', True) \<Rightarrow>
          (case relocate_each T xs2 of
             (ys2, xs2', True) \<Rightarrow> Returns (vec (ys1 @ x # ys2) (length (xs1 @ xs2) - 1))
           | (ys2, xs2', False) \<Rightarrow> Throws (vec (xs1' @ xs2') 0)))"
proof -
  define r where "r = length xs1 + length xs2 - 1"
  define cap where "cap = (length xs1 + length xs2) * 2"
  obtain ys1 xs1' ok1 where e1: "relocate_each T xs1 = (ys1, xs1', ok1)"
    by (cases "relocate_each T xs1") auto
  obtain ys2 xs2' ok2 where e2: "relocate_each T xs2 = (ys2, xs2', ok2)"
    by (cases "relocate_each T xs2") auto
  from relocate_each_lengths [OF e1]
  have l1: "length xs1' = length xs1" "ok1 \<Longrightarrow> length ys1 = length xs1"
    by auto
  from relocate_each_lengths [OF e2]
  have l2: "length xs2' = length xs2" "ok2 \<Longrightarrow> length ys2 = length xs2"
    by auto
  from assms have pos: "0 < length xs1 + length xs2"
    by (cases xs1) simp_all
  then have eq: "cap = length xs1 + Suc (length xs2 + r)"
    unfolding cap_def r_def by arith
  have sz: "(if m_size (vec (xs1 @ xs2) 0) = 0 then 1 else m_size (vec (xs1 @ xs2) 0) * 2 mod 2 ^ 64) = cap"
    using pos provides_no_wrap [OF assms(2)] by (simp add: cap_def)
  from assms(2) have "provides T cap" by (simp add: cap_def)
  from RawMemory_provides [OF this]
  have a: "RawMemory T cap
           = Some (replicate (length xs1) Raw @ Raw # replicate (length xs2) Raw @ replicate r Raw)"
    unfolding eq by (simp add: replicate_add replicate_append_same)
  have c: "construct_at (replicate (length xs1) Raw @ Raw # replicate (length xs2) Raw @ replicate r Raw)
             (length xs1) x
           = Inr (replicate (length xs1) Raw @ Live x # replicate (length xs2) Raw @ replicate r Raw)"
    using construct_at_mid [of "replicate (length xs1) Raw" "replicate (length xs2) Raw @ replicate r Raw" x]
    by simp
  have rel1: "relocate_n T (map Live xs1 @ map Live xs2) 0 (length xs1)
                (replicate (length xs1) Raw @ Live x # replicate (length xs2) Raw @ replicate r Raw) 0
     = (if ok1 then Returns (map Live xs1' @ map Live xs2,
                             map Live ys1 @ Live x # replicate (length xs2) Raw @ replicate r Raw)
        else Throws (map Live xs1' @ map Live xs2,
                     replicate (length xs1) Raw @ Live x # replicate (length xs2) Raw @ replicate r Raw))"
    using relocate_n_compute [of T "[]" xs1 "map Live xs2" "[]"
        "Live x # replicate (length xs2) Raw @ replicate r Raw"] e1
    by simp
  show ?thesis
  proof (cases ok1)
    case False
    with relocate_each_ok [of T xs1] e1 have "xs1 \<noteq> []" by (auto split: if_splits)
    then obtain k where k: "length xs1 = Suc k" by (cases xs1) simp_all
    have d: "destroy_n (replicate (length xs1) Raw @ Live x # replicate (length xs2) Raw @ replicate r Raw) 0
               (length xs1 + 1) = Inl Destroy_No_Object"
      by (simp add: k destroy_at_def slot_at_def)
    from False rel1 e1 c d show ?thesis
      unfolding Emplace_def sz a by (simp add: vec_def Capacity_def)
  next
    case True
    note ok1 = this
    have rel2: "relocate_n T (map Live xs1' @ map Live xs2) (length xs1) (length xs2)
                  (map Live ys1 @ Live x # replicate (length xs2) Raw @ replicate r Raw) (length xs1 + 1)
       = (if ok2 then Returns (map Live xs1' @ map Live xs2', map Live ys1 @ Live x # map Live ys2 @ replicate r Raw)
          else Throws (map Live xs1' @ map Live xs2',
                       map Live ys1 @ Live x # replicate (length xs2) Raw @ replicate r Raw))"
      using relocate_n_compute [of T "map Live xs1'" xs2 "[]" "map Live ys1 @ [Live x]" "replicate r Raw"]
        e2 l1 ok1
      by simp
    show ?thesis
    proof (cases ok2)
      case False
      have d: "destroy_n (map Live ys1 @ Live x # replicate (length xs2) Raw @ replicate r Raw) 0 (length xs1 + 1)
               = Inr (replicate (length xs1) Raw @ Raw # replicate (length xs2) Raw @ replicate r Raw)"
        using destroy_n_live [of "[]" "ys1 @ [x]" "replicate (length xs2) Raw @ replicate r Raw"] l1 ok1
        by (simp add: replicate_append_same)
      from False ok1 rel1 rel2 c d e1 e2 l1 l2 show ?thesis
        unfolding Emplace_def sz a by (simp add: vec_def Capacity_def)
    next
      case True
      have d: "destroy_n (map Live xs1' @ map Live xs2') 0 (length xs1 + length xs2)
               = Inr (replicate (length xs1 + length xs2) Raw)"
        using destroy_n_live [of "[]" "xs1' @ xs2'" "[]"] l1 l2 by simp
      from True ok1 rel1 rel2 c d e1 e2 l1 l2 show ?thesis
        unfolding Emplace_def sz a by (simp add: vec_def Capacity_def r_def)
    qed
  qed
qed

lemma length_elems: "valid v \<Longrightarrow> length (elems v) = Size v"
  using valid_shape [of v] size_vec [of "elems v" "Capacity v - m_size v"] by (simp add: Size_def)

text \<open>
  What holds of C2: when the relocation of the suffix is the one that throws, for a type
  relocated by copying, the handler destroys the prefix and the new element, which are
  exactly the objects in the new block, and the vector is what it was.
\<close>

lemma Emplace_suffix_throws:
  assumes "valid v" "Capacity v \<le> Size v" "i \<le> Size v" "\<not> relocates_by_move T"
    and "\<forall>y\<in>set (take i (elems v)). copy_ctor T y \<noteq> None"
    and "\<exists>y\<in>set (drop i (elems v)). copy_ctor T y = None"
    and "provides T (2 * Size v)"
  shows "Emplace T i (Some x) v = Throws v"
proof -
  define xs1 xs2 where "xs1 = take i (elems v)" and "xs2 = drop i (elems v)"
  from valid_full [OF assms(1,2)] have v: "v = vec (xs1 @ xs2) 0"
    by (simp add: xs1_def xs2_def)
  from assms(3) length_elems [OF assms(1)] have i: "i = length xs1"
    by (simp add: xs1_def)
  from assms(6) have ne: "xs1 @ xs2 \<noteq> []" by (auto simp: xs2_def)
  from assms(7) length_elems [OF assms(1)] have pr: "provides T (length (xs1 @ xs2) * 2)"
    by (simp add: xs1_def xs2_def mult.commute)
  obtain ys1 xs1' ok1 where e1: "relocate_each T xs1 = (ys1, xs1', ok1)"
    by (cases "relocate_each T xs1") auto
  obtain ys2 xs2' ok2 where e2: "relocate_each T xs2 = (ys2, xs2', ok2)"
    by (cases "relocate_each T xs2") auto
  from relocate_each_ok [of T xs1] e1 assms(4,5) have ok1 by (simp add: xs1_def)
  moreover from relocate_each_ok [of T xs2] e2 assms(4,6) have "\<not> ok2" by (auto simp: xs2_def)
  moreover note relocate_each_copy_sources [OF assms(4) e1] relocate_each_copy_sources [OF assms(4) e2]
  ultimately have "Emplace T (length xs1) (Some x) (vec (xs1 @ xs2) 0) = Throws (vec (xs1 @ xs2) 0)"
    using Emplace_full [OF ne pr, of x] e1 e2 by simp
  then show ?thesis using i v by simp
qed

text \<open>
  When the relocation of the prefix throws, \<^verbatim>\<open>uninitialized_copy_n\<close> or
  \<^verbatim>\<open>uninitialized_move_n\<close> has already destroyed what it built, and the handler's
  \<^verbatim>\<open>destroy_n(new_data.GetAddress(), distance + 1)\<close> runs a destructor on slot 0, which
  holds no object.
\<close>

lemma Emplace_prefix_throws:
  assumes "valid v" "Capacity v \<le> Size v" "i \<le> Size v"
    and "\<not> snd (snd (relocate_each T (take i (elems v))))"
    and "provides T (2 * Size v)"
  shows "Emplace T i (Some x) v = Violation Destroy_No_Object"
proof -
  define xs1 xs2 where "xs1 = take i (elems v)" and "xs2 = drop i (elems v)"
  from valid_full [OF assms(1,2)] have v: "v = vec (xs1 @ xs2) 0"
    by (simp add: xs1_def xs2_def)
  from assms(3) length_elems [OF assms(1)] have i: "i = length xs1"
    by (simp add: xs1_def)
  have "snd (snd (relocate_each T []))"
    by (simp add: relocate_each_def)
  with assms(4) [folded xs1_def] have "xs1 \<noteq> []"
    by auto
  then have ne: "xs1 @ xs2 \<noteq> []" by simp
  from assms(5) length_elems [OF assms(1)] have pr: "provides T (length (xs1 @ xs2) * 2)"
    by (simp add: xs1_def xs2_def mult.commute)
  obtain ys1 xs1' ok1 where e1: "relocate_each T xs1 = (ys1, xs1', ok1)"
    by (cases "relocate_each T xs1") auto
  with assms(4) have "\<not> ok1" by (simp add: xs1_def)
  with e1 Emplace_full [OF ne pr, of x]
  have "Emplace T (length xs1) (Some x) (vec (xs1 @ xs2) 0) = Violation Destroy_No_Object"
    by simp
  then show ?thesis using i v by simp
qed

text \<open>
  C2 at a failing input. The vector holds 1 and 2 with capacity 2, the copy constructor
  throws on 1, and 3 is emplaced at distance 1. The new element is built in slot 1 of
  the new block; copying the prefix throws with nothing built, so slot 0 holds no
  object; the handler then destroys slots 0 and 1.
\<close>

theorem Emplace_handler_destroys_unbuilt_prefix:
  "valid \<lparr>m_data = [Live (1::int), Live 2], m_size = 2\<rparr>
   \<and> Capacity \<lparr>m_data = [Live (1::int), Live 2], m_size = 2\<rparr> \<le> Size \<lparr>m_data = [Live (1::int), Live 2], m_size = 2\<rparr>
   \<and> relocate_n copy_throws [Live 1, Live 2] 0 1 [Raw, Live 3, Raw, Raw] 0
       = Throws ([Live 1, Live 2], [Raw, Live 3, Raw, Raw])
   \<and> destroy_n [Raw, Live (3::int), Raw, Raw] 0 (1 + 1) = Inl Destroy_No_Object
   \<and> Emplace copy_throws 1 (Some 3) \<lparr>m_data = [Live 1, Live 2], m_size = 2\<rparr>
       = Violation Destroy_No_Object"
  by code_simp


section \<open>Shifting elements inside the block\<close>

lemma obj_at_next [simp]: "obj_at (A @ s # Live x # B) (Suc (length A)) = Inr x"
  using obj_at_mid [of "A @ [s]" x B] by simp

lemma move_assign_at_up:
  "move_assign_at T (A @ Live x # Live z # B) (Suc (length A)) (length A)
   = (case move_assign T z x of
        None \<Rightarrow> Throws (A @ Live x # Live z # B)
      | Some (t', x') \<Rightarrow> Returns (A @ Live x' # Live t' # B))"
proof -
  have "(A @ Live x' # Live z # B)[Suc (length A) := Live t'] = A @ Live x' # Live t' # B" for x' t'
    using list_update_length [of "A @ [Live x']" "Live z" B "Live t'"] by simp
  then show ?thesis
    by (simp add: move_assign_at_def split: option.splits)
qed

lemma move_assign_at_down:
  "move_assign_at T (A @ Live z # Live x # B) (length A) (Suc (length A))
   = (case move_assign T z x of
        None \<Rightarrow> Throws (A @ Live z # Live x # B)
      | Some (t', x') \<Rightarrow> Returns (A @ Live t' # Live x' # B))"
proof -
  have "(A @ Live z # Live x # B)[Suc (length A) := Live x'] = A @ Live z # Live x' # B" for x'
    using list_update_length [of "A @ [Live z]" "Live x" B "Live x'"] by simp
  then show ?thesis
    by (simp add: move_assign_at_def split: option.splits)
qed

lemma move_assign_standard:
  assumes "preserves_values T" "never_throws T"
  shows "\<exists>x'. move_assign T z x = Some (x, x')"
proof -
  from assms(2) have "move_assign T z x \<noteq> None"
    unfolding never_throws_def by blast
  then obtain t' x' where "move_assign T z x = Some (t', x')"
    by fastforce
  with assms(1) show ?thesis unfolding preserves_values_def by blast
qed

lemma move_ctor_standard:
  assumes "preserves_values T" "never_throws T"
  shows "\<exists>x'. move_ctor T x = Some (x, x')"
proof -
  from assms(2) have "move_ctor T x \<noteq> None"
    unfolding never_throws_def by blast
  then obtain y x' where "move_ctor T x = Some (y, x')"
    by fastforce
  with assms(1) show ?thesis unfolding preserves_values_def by blast
qed

lemma copy_ctor_standard:
  assumes "preserves_values T" "never_throws T"
  shows "copy_ctor T x = Some x"
proof -
  from assms(2) have "copy_ctor T x \<noteq> None"
    unfolding never_throws_def by blast
  then obtain y where "copy_ctor T x = Some y"
    by fastforce
  with assms(1) show ?thesis unfolding preserves_values_def by blast
qed

lemma move_backward_standard:
  assumes "preserves_values T" "never_throws T"
  shows "\<exists>j. move_backward T (A @ map Live xs @ Live z # B) (length A) (length xs) (Suc (length A + length xs))
              = Returns (A @ Live j # map Live xs @ B)"
proof (induction xs arbitrary: z B rule: rev_induct)
  case Nil
  then show ?case by simp
next
  case (snoc x xs)
  from move_assign_standard [OF assms] obtain x' where m: "move_assign T z x = Some (x, x')"
    by blast
  have "move_assign_at T ((A @ map Live xs) @ Live x # Live z # B) (Suc (length (A @ map Live xs))) (length (A @ map Live xs))
        = Returns ((A @ map Live xs) @ Live x' # Live x # B)"
    using move_assign_at_up [of T "A @ map Live xs" x z B] m by simp
  then have step: "move_assign_at T (A @ map Live (xs @ [x]) @ Live z # B) (Suc (length A + length xs)) (length A + length xs)
        = Returns (A @ map Live xs @ Live x' # Live x # B)"
    by simp
  from snoc.IH [of x' "Live x # B"] obtain j where
    "move_backward T (A @ map Live xs @ Live x' # Live x # B) (length A) (length xs) (Suc (length A + length xs))
       = Returns (A @ Live j # map Live xs @ Live x # B)"
    by blast
  with step show ?case by simp
qed

lemma move_range_standard:
  assumes "preserves_values T" "never_throws T"
  shows "\<exists>j. move_range T (A @ Live z # map Live xs @ B) (Suc (length A)) (length xs) (length A)
              = Returns (A @ map Live xs @ Live j # B)"
proof (induction xs arbitrary: z A)
  case Nil
  then show ?case by simp
next
  case (Cons x xs)
  from move_assign_standard [OF assms] obtain x' where m: "move_assign T z x = Some (x, x')"
    by blast
  have step: "move_assign_at T (A @ Live z # Live x # map Live xs @ B) (length A) (Suc (length A))
        = Returns (A @ Live x # Live x' # map Live xs @ B)"
    using move_assign_at_down [of T A z x "map Live xs @ B"] m by simp
  from Cons.IH [of "A @ [Live x]" x'] obtain j where
    "move_range T (A @ Live x # Live x' # map Live xs @ B) (Suc (Suc (length A))) (length xs) (Suc (length A))
       = Returns (A @ Live x # map Live xs @ Live j # B)"
    by auto
  with step show ?case by simp
qed

section \<open>Insert and Erase for the usual element types\<close>

lemma move_each_standard:
  assumes "preserves_values T" "never_throws T"
  shows "\<exists>xs'. move_each T xs = (xs, xs', True)"
proof (induction xs)
  case Nil
  then show ?case by simp
next
  case (Cons x xs)
  from move_ctor_standard [OF assms] obtain x' where "move_ctor T x = Some (x, x')" by blast
  with Cons show ?case by auto
qed

lemma relocate_each_standard:
  assumes "preserves_values T" "never_throws T"
  shows "\<exists>xs'. relocate_each T xs = (xs, xs', True)"
proof (cases "relocates_by_move T")
  case True
  with move_each_standard [OF assms, of xs] show ?thesis by (simp add: relocate_each_def)
next
  case False
  have "those (map (copy_ctor T) xs) = Some xs"
    by (induction xs) (simp_all add: copy_ctor_standard [OF assms])
  with False show ?thesis by (simp add: relocate_each_def)
qed

lemma Emplace_spare_end: "Emplace T (length xs) (Some x) (vec xs (Suc m)) = Returns (vec (xs @ [x]) m)"
  using construct_at_mid [of "map Live xs" "replicate m Raw" x]
  by (simp add: Emplace_def vec_def Capacity_def)

lemma Emplace_spare_mid:
  assumes "preserves_values T" "never_throws T"
  shows "Emplace T (length xs1) (Some x) (vec (xs1 @ xs2 @ [l]) (Suc m))
         = Returns (vec (xs1 @ x # xs2 @ [l]) m)"
proof -
  define A where "A = map Live xs1 @ map Live xs2"
  define R where "R = replicate m (Raw :: 'a slot)"
  define n where "n = length xs1 + length xs2"
  have nA: "length A = n" by (simp add: A_def n_def)
  have d: "m_data (vec (xs1 @ xs2 @ [l]) (Suc m)) = A @ Live l # Raw # R"
    and sz: "m_size (vec (xs1 @ xs2 @ [l]) (Suc m)) = Suc n"
    by (simp_all add: vec_def A_def R_def n_def)
  from move_ctor_standard [OF assms] obtain l' where mc: "move_ctor T l = Some (l, l')"
    by blast
  have o: "obj_at (A @ Live l # Raw # R) n = Inr l"
    using obj_at_mid [of A l "Raw # R"] nA by simp
  have u: "(A @ Live l # Raw # R)[n := Live l'] = A @ Live l' # Raw # R"
    using list_update_length [of A "Live l" "Raw # R" "Live l'"] nA by simp
  have c: "construct_at (A @ Live l' # Raw # R) (Suc n) l = Inr (A @ Live l' # Live l # R)"
    using construct_at_mid [of "A @ [Live l']" R l] nA by simp
  from move_backward_standard [OF assms, of "map Live xs1" xs2 l' "Live l # R"] obtain j where
    mb: "move_backward T (A @ Live l' # Live l # R) (length xs1) (length xs2) (Suc n)
         = Returns (map Live xs1 @ Live j # map Live xs2 @ Live l # R)"
    by (auto simp: A_def n_def)
  have oj: "obj_at (map Live xs1 @ Live j # map Live xs2 @ Live l # R) (length xs1) = Inr j"
    using obj_at_mid [of "map Live xs1" j "map Live xs2 @ Live l # R"] by simp
  from move_assign_standard [OF assms] obtain x' where ma: "move_assign T j x = Some (x, x')"
    by blast
  have uj: "(map Live xs1 @ Live j # map Live xs2 @ Live l # R)[length xs1 := Live x]
            = map Live xs1 @ Live x # map Live xs2 @ Live l # R"
    using list_update_length [of "map Live xs1" "Live j" "map Live xs2 @ Live l # R" "Live x"] by simp
  have le: "length xs1 \<le> Suc n" "length xs1 \<noteq> Suc n" "\<not> length (A @ Live l # Raw # R) \<le> Suc n"
    "Suc n - 1 = n" "Suc n - 1 - length xs1 = length xs2" "n - length xs1 = length xs2"
    by (simp_all add: n_def nA)
  show ?thesis
    unfolding Emplace_def Capacity_def d sz
    by (simp only: le o mc u c mb oj ma uj if_True if_False not_not option.case sum.case prod.case
        outcome.case Vector.simps)
      (simp add: vec_def R_def n_def)
qed

lemma Erase_standard:
  assumes "preserves_values T" "never_throws T"
  shows "Erase T (length xs1) (vec (xs1 @ z # xs2) m) = Returns (vec (xs1 @ xs2) (Suc m))"
proof -
  define R where "R = replicate m (Raw :: 'a slot)"
  from move_range_standard [OF assms, of "map Live xs1" z xs2 R] obtain j where
    mr: "move_range T (map Live xs1 @ Live z # map Live xs2 @ R) (Suc (length xs1)) (length xs2) (length xs1)
         = Returns (map Live xs1 @ map Live xs2 @ Live j # R)"
    by auto
  have da: "destroy_at (map Live xs1 @ map Live xs2 @ Live j # R) (length xs1 + length xs2)
            = Inr (map Live xs1 @ map Live xs2 @ Raw # R)"
    using destroy_at_mid [of "map Live xs1 @ map Live xs2" j R] by simp
  from mr da show ?thesis
    by (simp add: Erase_def Size_def vec_def R_def)
qed

lemma Emplace_standard:
  assumes "preserves_values T" "never_throws T"
    and "m = 0 \<Longrightarrow> provides T (max 1 (2 * length (xs1 @ xs2)))"
  shows "\<exists>m'. Emplace T (length xs1) (Some x) (vec (xs1 @ xs2) m) = Returns (vec (xs1 @ x # xs2) m')"
proof (cases m)
  case 0
  show ?thesis
  proof (cases "xs1 @ xs2 = []")
    case True
    with assms(3) [OF 0] have "provides T 1" by simp
    with True 0 Emplace_empty [of T x] show ?thesis by auto
  next
    case False
    then have "max 1 (2 * length (xs1 @ xs2)) = length (xs1 @ xs2) * 2"
      by (cases "xs1 @ xs2") simp_all
    with assms(3) [OF 0] have pr: "provides T (length (xs1 @ xs2) * 2)" by simp
    from relocate_each_standard [OF assms(1,2), of xs1] obtain xs1' where "relocate_each T xs1 = (xs1, xs1', True)"
      by blast
    moreover from relocate_each_standard [OF assms(1,2), of xs2] obtain xs2' where "relocate_each T xs2 = (xs2, xs2', True)"
      by blast
    ultimately have "Emplace T (length xs1) (Some x) (vec (xs1 @ xs2) 0)
                     = Returns (vec (xs1 @ x # xs2) (length (xs1 @ xs2) - 1))"
      using Emplace_full [OF False pr, of x] by simp
    with 0 show ?thesis by blast
  qed
next
  case (Suc m')
  show ?thesis
  proof (cases "xs2 = []")
    case True
    with Suc Emplace_spare_end [of T xs1 x m'] show ?thesis by auto
  next
    case False
    then have "xs2 = butlast xs2 @ [last xs2]" by simp
    with Emplace_spare_mid [OF assms(1,2), of xs1 x "butlast xs2" "last xs2" m']
    have "Emplace T (length xs1) (Some x) (vec (xs1 @ xs2) (Suc m')) = Returns (vec (xs1 @ x # xs2) m')"
      by simp
    with Suc show ?thesis by blast
  qed
qed

text \<open>
  C8. For an element type whose copies and moves preserve values and do not throw, a
  vector that satisfies the invariant and a position \<open>i\<close> within \<open>[0, size]\<close>, and when
  there is a slot to spare or \<^verbatim>\<open>operator new\<close> provides the block of twice the size:
  inserting a value at \<open>i\<close>, by copy or by move, returns a vector that satisfies the
  invariant, has one element more, and holds the value at \<open>i\<close> between the old
  elements; erasing at \<open>i\<close> then returns a vector that satisfies the invariant, has the
  old size and holds the old sequence of elements in its slots \<open>[0, size)\<close>.
\<close>

theorem Insert_then_Erase:
  assumes "preserves_values T" "never_throws T" "valid v" "i \<le> Size v"
    and "Size v < Capacity v \<or> provides T (max 1 (2 * Size v))"
  shows "(\<exists>v1 v2. Insert T i x v = Returns v1 \<and> Erase T i v1 = Returns v2
            \<and> valid v1 \<and> Size v1 = Size v + 1
            \<and> elems v1 = take i (elems v) @ x # drop i (elems v)
            \<and> valid v2 \<and> Size v2 = Size v \<and> elems v2 = elems v)
       \<and> (\<exists>v1 v2. Insert_rvalue T i x v = Returns v1 \<and> Erase T i v1 = Returns v2
            \<and> valid v1 \<and> Size v1 = Size v + 1
            \<and> elems v1 = take i (elems v) @ x # drop i (elems v)
            \<and> valid v2 \<and> Size v2 = Size v \<and> elems v2 = elems v)"
proof -
  define xs1 xs2 m where "xs1 = take i (elems v)" and "xs2 = drop i (elems v)"
    and "m = Capacity v - m_size v"
  have xs: "elems v = xs1 @ xs2" by (simp add: xs1_def xs2_def)
  from valid_shape [OF assms(3)] have v: "v = vec (xs1 @ xs2) m"
    by (simp add: xs1_def xs2_def m_def)
  from assms(4) length_elems [OF assms(3)] have i: "i = length xs1"
    by (simp add: xs1_def)
  have sz: "Size v = length (xs1 @ xs2)"
    using length_elems [OF assms(3)] xs by simp
  have pr: "provides T (max 1 (2 * length (xs1 @ xs2)))" if "m = 0"
    using assms(5) that sz by (simp add: m_def Size_def)
  from Emplace_standard [OF assms(1,2) pr, where x = x] obtain m' where
    e: "Emplace T (length xs1) (Some x) (vec (xs1 @ xs2) m) = Returns (vec (xs1 @ x # xs2) m')"
    by blast
  have r: "Erase T (length xs1) (vec (xs1 @ x # xs2) m') = Returns (vec (xs1 @ xs2) (Suc m'))"
    by (rule Erase_standard [OF assms(1,2)])
  from move_ctor_standard [OF assms(1,2), of x] have mv: "map_option fst (move_ctor T x) = Some x"
    by auto
  have "Emplace T i (Some x) v = Returns (vec (xs1 @ x # xs2) m')"
    by (subst v, subst i) (rule e)
  moreover have "Erase T i (vec (xs1 @ x # xs2) m') = Returns (vec (xs1 @ xs2) (Suc m'))"
    by (subst i) (rule r)
  moreover have "elems (vec (xs1 @ x # xs2) m') = take i (elems v) @ x # drop i (elems v)"
    by (simp add: xs1_def xs2_def)
  moreover have "elems (vec (xs1 @ xs2) (Suc m')) = elems v"
    by (simp add: xs)
  moreover have "valid (vec (xs1 @ x # xs2) m')" "valid (vec (xs1 @ xs2) (Suc m'))"
    by simp_all
  moreover have "Size (vec (xs1 @ x # xs2) m') = Size v + 1" "Size (vec (xs1 @ xs2) (Suc m')) = Size v"
    by (simp_all add: sz) (simp_all add: Size_def)
  ultimately show ?thesis
    unfolding Insert_def Insert_rvalue_def copy_ctor_standard [OF assms(1,2)] mv by blast
qed

theorem Insert_then_Erase_witness:
  "preserves_values plain \<and> never_throws plain
   \<and> valid \<lparr>m_data = [Live (1::int), Live 2, Live 3, Raw], m_size = 3\<rparr>
   \<and> 1 \<le> Size \<lparr>m_data = [Live (1::int), Live 2, Live 3, Raw], m_size = 3\<rparr>
   \<and> Size \<lparr>m_data = [Live (1::int), Live 2, Live 3, Raw], m_size = 3\<rparr>
       < Capacity \<lparr>m_data = [Live (1::int), Live 2, Live 3, Raw], m_size = 3\<rparr>
   \<and> (\<exists>v1 v2. Insert plain 1 9 \<lparr>m_data = [Live 1, Live 2, Live 3, Raw], m_size = 3\<rparr> = Returns v1
          \<and> Erase plain 1 v1 = Returns v2
          \<and> valid v1 \<and> Size v1 = Size \<lparr>m_data = [Live (1::int), Live 2, Live 3, Raw], m_size = 3\<rparr> + 1
          \<and> elems v1 = take 1 (elems \<lparr>m_data = [Live 1, Live 2, Live 3, Raw], m_size = 3\<rparr>)
                @ 9 # drop 1 (elems \<lparr>m_data = [Live 1, Live 2, Live 3, Raw], m_size = 3\<rparr>)
          \<and> valid v2 \<and> Size v2 = Size \<lparr>m_data = [Live (1::int), Live 2, Live 3, Raw], m_size = 3\<rparr>
          \<and> elems v2 = elems \<lparr>m_data = [Live 1, Live 2, Live 3, Raw], m_size = 3\<rparr>)
   \<and> Insert plain 1 9 \<lparr>m_data = [Live 1, Live 2, Live 3, Raw], m_size = 3\<rparr>
       = Returns \<lparr>m_data = [Live 1, Live 9, Live 2, Live 3], m_size = 4\<rparr>
   \<and> Erase plain 1 \<lparr>m_data = [Live 1, Live 9, Live 2, Live 3], m_size = 4\<rparr>
       = Returns \<lparr>m_data = [Live 1, Live 2, Live 3, Raw], m_size = 3\<rparr>
   \<and> preserves_values copied \<and> never_throws copied
   \<and> valid \<lparr>m_data = [Live (1::int), Live 2], m_size = 2\<rparr>
   \<and> 2 \<le> Size \<lparr>m_data = [Live (1::int), Live 2], m_size = 2\<rparr>
   \<and> provides copied (max 1 (2 * Size \<lparr>m_data = [Live (1::int), Live 2], m_size = 2\<rparr>))
   \<and> (\<exists>v1 v2. Insert_rvalue copied 2 9 \<lparr>m_data = [Live 1, Live 2], m_size = 2\<rparr> = Returns v1
          \<and> Erase copied 2 v1 = Returns v2
          \<and> valid v1 \<and> Size v1 = Size \<lparr>m_data = [Live (1::int), Live 2], m_size = 2\<rparr> + 1
          \<and> elems v1 = take 2 (elems \<lparr>m_data = [Live 1, Live 2], m_size = 2\<rparr>)
                @ 9 # drop 2 (elems \<lparr>m_data = [Live 1, Live 2], m_size = 2\<rparr>)
          \<and> valid v2 \<and> Size v2 = Size \<lparr>m_data = [Live (1::int), Live 2], m_size = 2\<rparr>
          \<and> elems v2 = elems \<lparr>m_data = [Live 1, Live 2], m_size = 2\<rparr>)
   \<and> Insert_rvalue copied 2 9 \<lparr>m_data = [Live 1, Live 2], m_size = 2\<rparr>
       = Returns \<lparr>m_data = [Live 1, Live 2, Live 9, Raw], m_size = 3\<rparr>
   \<and> Erase copied 2 \<lparr>m_data = [Live 1, Live 2, Live 9, Raw], m_size = 3\<rparr>
       = Returns \<lparr>m_data = [Live 1, Live 2, Raw, Raw], m_size = 2\<rparr>"
proof -
  have p: "preserves_values plain" and pc: "preserves_values copied"
    by (simp_all add: preserves_values_def copied_def plain_def)
  have n: "never_throws plain" and nc: "never_throws copied"
    by (simp_all add: never_throws_def copied_def plain_def)
  have w: "valid \<lparr>m_data = [Live (1::int), Live 2, Live 3, Raw], m_size = 3\<rparr>"
    and w2: "valid \<lparr>m_data = [Live (1::int), Live 2], m_size = 2\<rparr>"
    by (simp_all add: valid_def Capacity_def is_Live_def is_Raw_def)
  have i: "1 \<le> Size \<lparr>m_data = [Live (1::int), Live 2, Live 3, Raw], m_size = 3\<rparr>"
    and i2: "2 \<le> Size \<lparr>m_data = [Live (1::int), Live 2], m_size = 2\<rparr>"
    and sp: "Size \<lparr>m_data = [Live (1::int), Live 2, Live 3, Raw], m_size = 3\<rparr>
       < Capacity \<lparr>m_data = [Live (1::int), Live 2, Live 3, Raw], m_size = 3\<rparr>"
    by (simp_all add: Size_def Capacity_def)
  have pv: "provides copied (max 1 (2 * Size \<lparr>m_data = [Live (1::int), Live 2], m_size = 2\<rparr>))"
    by (simp add: provides_def fits_size_t_def Size_def copied_def plain_def)
  have a: "Insert plain 1 9 \<lparr>m_data = [Live 1, Live 2, Live 3, Raw], m_size = 3\<rparr>
       = Returns \<lparr>m_data = [Live 1, Live 9, Live 2, Live 3], m_size = 4\<rparr>"
    by code_simp
  have b: "Erase plain 1 \<lparr>m_data = [Live 1, Live 9, Live 2, Live 3], m_size = 4\<rparr>
       = Returns \<lparr>m_data = [Live 1, Live 2, Live 3, Raw], m_size = 3\<rparr>"
    by code_simp
  have a2: "Insert_rvalue copied 2 9 \<lparr>m_data = [Live 1, Live 2], m_size = 2\<rparr>
       = Returns \<lparr>m_data = [Live 1, Live 2, Live 9, Raw], m_size = 3\<rparr>"
    by code_simp
  have b2: "Erase copied 2 \<lparr>m_data = [Live 1, Live 2, Live 9, Raw], m_size = 3\<rparr>
       = Returns \<lparr>m_data = [Live 1, Live 2, Raw, Raw], m_size = 2\<rparr>"
    by code_simp
  from sp have h: "Size \<lparr>m_data = [Live (1::int), Live 2, Live 3, Raw], m_size = 3\<rparr>
       < Capacity \<lparr>m_data = [Live (1::int), Live 2, Live 3, Raw], m_size = 3\<rparr>
     \<or> provides plain (max 1 (2 * Size \<lparr>m_data = [Live (1::int), Live 2, Live 3, Raw], m_size = 3\<rparr>))"
    by blast
  from pv have h2: "Size \<lparr>m_data = [Live (1::int), Live 2], m_size = 2\<rparr>
       < Capacity \<lparr>m_data = [Live (1::int), Live 2], m_size = 2\<rparr>
     \<or> provides copied (max 1 (2 * Size \<lparr>m_data = [Live (1::int), Live 2], m_size = 2\<rparr>))"
    by blast
  from Insert_then_Erase [OF p n w i h, of 9] Insert_then_Erase [OF pc nc w2 i2 h2, of 9]
    p n w i sp a b pc nc w2 i2 pv a2 b2
  show ?thesis by blast
qed


section \<open>A throwing shift in Emplace\<close>

lemma obj_at_Inr: "obj_at buf i = Inr x \<Longrightarrow> i < length buf \<and> buf ! i = Live x"
  by (auto simp: obj_at_def slot_at_def split: slot.splits if_splits)

lemma kind_simps [simp]: "kind Raw = Raw" "kind (Live x) = Live ()" "kind Beyond = Beyond"
  by (simp_all add: kind_def)

lemma is_Live_kind: "is_Live s \<longleftrightarrow> kind s = Live ()"
  by (cases s) simp_all

lemma is_Raw_kind: "is_Raw s \<longleftrightarrow> kind s = Raw"
  by (cases s) (simp_all add: is_Raw_def)

lemma map_is_Live_update:
  "i < length buf \<Longrightarrow> is_Live (buf ! i) \<Longrightarrow> map kind (buf[i := Live x]) = map kind buf"
  by (simp add: map_update list_update_same_conv is_Live_kind)

lemma move_assign_at_Returns_shape:
  assumes "move_assign_at T buf d s = Returns buf'"
  shows "map kind buf' = map kind buf"
proof -
  from assms obtain x y x' y' where "obj_at buf s = Inr x" "obj_at buf d = Inr y"
    and b: "buf' = buf[s := Live x', d := Live y']"
    by (auto simp: move_assign_at_def split: sum.splits option.splits)
  then have "s < length buf" "is_Live (buf ! s)" "d < length buf" "is_Live (buf ! d)"
    by (auto dest!: obj_at_Inr)
  then show ?thesis
    unfolding b by (intro nth_equalityI) (auto simp: nth_list_update is_Live_kind)
qed

lemma move_assign_at_Throws_same: "move_assign_at T buf d s = Throws buf' \<Longrightarrow> buf' = buf"
  by (auto simp: move_assign_at_def split: sum.splits option.splits)

lemma move_backward_Throws_shape:
  "move_backward T buf first n d_last = Throws buf' \<Longrightarrow> map kind buf' = map kind buf"
proof (induction n arbitrary: buf d_last)
  case 0
  then show ?case by simp
next
  case (Suc n)
  then show ?case
    by (auto split: if_splits outcome.splits
        dest: move_assign_at_Returns_shape move_assign_at_Throws_same)
qed

lemma move_backward_Returns_shape:
  "move_backward T buf first n d_last = Returns buf' \<Longrightarrow> map kind buf' = map kind buf"
proof (induction n arbitrary: buf d_last)
  case 0
  then show ?case by simp
next
  case (Suc n)
  then show ?case
    by (auto split: if_splits outcome.splits dest: move_assign_at_Returns_shape)
qed

lemma valid_by_shape:
  "valid v \<longleftrightarrow>
     m_size v \<le> length (map kind (m_data v))
     \<and> (\<forall>b\<in>set (take (m_size v) (map kind (m_data v))). b = Live ())
     \<and> (\<forall>b\<in>set (drop (m_size v) (map kind (m_data v))). b = Raw)"
  by (auto simp: valid_def Capacity_def list_all_iff is_Raw_kind is_Live_kind take_map drop_map)

lemma valid_same_shape:
  "valid v \<Longrightarrow> map kind (m_data v') = map kind (m_data v) \<Longrightarrow> m_size v' = m_size v \<Longrightarrow> valid v'"
  by (auto simp: valid_by_shape)

lemma m_data_valid:
  "valid v \<Longrightarrow> m_data v = map Live (elems v) @ replicate (Capacity v - m_size v) Raw"
  using valid_shape [of v] m_data_vec [of "elems v" "Capacity v - m_size v"] by simp

lemma Vector_dtor_valid:
  assumes "valid v"
  shows "Vector_dtor v = Returns ()"
proof -
  have "destroy_n (map Live (elems v) @ replicate (Capacity v - m_size v) Raw) 0 (length (elems v))
        = Inr (replicate (length (elems v)) Raw @ replicate (Capacity v - m_size v) Raw)"
    using destroy_n_live [of "[]" "elems v" "replicate (Capacity v - m_size v) Raw"] by simp
  then show ?thesis
    using length_elems [OF assms]
    by (simp add: Vector_dtor_def m_data_valid [OF assms] Size_def)
qed

text \<open>
  C9, as the code has it. Let the vector satisfy the invariant and have a slot to spare,
  and let the position be before the end. If the last element has been move-constructed
  into the slot at \<^verbatim>\<open>end()\<close> and \<^verbatim>\<open>std::move_backward\<close> then throws, leaving the block
  \<open>d'\<close>, the handler destroys the slot at \<^verbatim>\<open>end()\<close> and \<^verbatim>\<open>Emplace\<close> throws: the
  vector keeps its size and capacity and satisfies the invariant, so the slot at its
  size holds no object, no object is outside \<open>[0, size)\<close>, and the destructor of the
  vector later destroys every object once. The values of the elements may have changed.
\<close>

theorem Emplace_shift_throws:
  assumes "valid v" "Size v < Capacity v" "i < Size v"
    and mc: "move_ctor T (last (elems v)) = Some (y, l')"
    and mb: "move_backward T ((m_data v)[m_size v - 1 := Live l', m_size v := Live y])
               i (m_size v - 1 - i) (m_size v) = Throws d'"
  shows "Emplace T i (Some x) v = Throws (v\<lparr>m_data := d'[m_size v := Raw]\<rparr>)
       \<and> valid (v\<lparr>m_data := d'[m_size v := Raw]\<rparr>)
       \<and> Size (v\<lparr>m_data := d'[m_size v := Raw]\<rparr>) = Size v
       \<and> Capacity (v\<lparr>m_data := d'[m_size v := Raw]\<rparr>) = Capacity v
       \<and> slot_at (d'[m_size v := Raw]) (m_size v) = Raw
       \<and> Vector_dtor (v\<lparr>m_data := d'[m_size v := Raw]\<rparr>) = Returns ()"
proof -
  define n dat where "n = m_size v" and "dat = m_data v"
  define d where "d = dat[n - 1 := Live l', n := Live y]"
  define k where "k = Capacity v - m_size v"
  from assms(2,3) have n: "0 < n" "n < length dat" "i < n"
    by (simp_all add: n_def dat_def Size_def Capacity_def)
  have dat: "dat = map Live (elems v) @ replicate k Raw"
    using m_data_valid [OF assms(1)] by (simp add: dat_def k_def)
  have len: "length (elems v) = n"
    using length_elems [OF assms(1)] by (simp add: n_def Size_def)
  from n len have ne: "elems v \<noteq> []" by auto
  have lst: "dat ! (n - 1) = Live (last (elems v))"
    using n len ne by (simp add: dat nth_append last_conv_nth)
  have raw: "dat ! n = Raw"
    using n len by (simp add: dat nth_append)
  have o: "obj_at dat (n - 1) = Inr (last (elems v))"
    using n lst by (simp add: obj_at_def slot_at_def)
  have c: "construct_at (dat[n - 1 := Live l']) n y = Inr d"
    using n raw by (simp add: construct_at_def d_def)
  from mb have mb': "move_backward T d i (n - 1 - i) n = Throws d'"
    by (simp add: d_def n_def dat_def)
  from move_backward_Throws_shape [OF mb'] have sh: "map kind d' = map kind d" .
  then have ld: "length d' = length dat"
    using length_map [of kind d'] by (simp add: d_def)
  from sh have "map kind d' ! n = map kind d ! n" by simp
  with n ld have "is_Live (d' ! n)" by (simp add: d_def is_Live_kind)
  then obtain z where z: "d' ! n = Live z"
    by (cases "d' ! n") simp_all
  with n ld have da: "destroy_at d' n = Inr (d'[n := Raw])"
    by (simp add: destroy_at_def slot_at_def)
  have cond: "\<not> \<not> i \<le> n" "\<not> length dat \<le> n" "i \<noteq> n"
    using n by simp_all
  have e: "Emplace T i (Some x) v = Throws (v\<lparr>m_data := d'[n := Raw]\<rparr>)"
    unfolding Emplace_def Capacity_def n_def [symmetric] dat_def [symmetric]
    by (simp only: cond o mc c mb' da if_True if_False not_False_eq_True option.case sum.case prod.case
        outcome.case)
  have "map kind (d'[n := Raw]) = (map kind d)[n := Raw]"
    by (simp add: map_update sh)
  also have "\<dots> = map kind dat"
    using n lst raw by (intro nth_equalityI) (auto simp: d_def nth_list_update)
  finally have "map kind (m_data (v\<lparr>m_data := d'[n := Raw]\<rparr>)) = map kind (m_data v)"
    by (simp add: dat_def)
  from valid_same_shape [OF assms(1) this] have val: "valid (v\<lparr>m_data := d'[n := Raw]\<rparr>)"
    by simp
  have "slot_at (d'[n := Raw]) n = Raw"
    using n ld by (simp add: slot_at_def)
  with e val Vector_dtor_valid [OF val] ld show ?thesis
    by (simp add: n_def Size_def Capacity_def dat_def)
qed

theorem Emplace_shift_throws_witness:
  "valid \<lparr>m_data = [Live (1::int), Live 2, Raw], m_size = 2\<rparr>
   \<and> Size \<lparr>m_data = [Live (1::int), Live 2, Raw], m_size = 2\<rparr>
       < Capacity \<lparr>m_data = [Live (1::int), Live 2, Raw], m_size = 2\<rparr>
   \<and> 0 < Size \<lparr>m_data = [Live (1::int), Live 2, Raw], m_size = 2\<rparr>
   \<and> move_ctor (assign_throws_on 1) (last (elems \<lparr>m_data = [Live 1, Live 2, Raw], m_size = 2\<rparr>))
       = Some (2, 0)
   \<and> move_backward (assign_throws_on 1) [Live 1, Live 0, Live 2] 0 1 2 = Throws [Live 1, Live 0, Live 2]
   \<and> Emplace (assign_throws_on 1) 0 (Some 9) \<lparr>m_data = [Live 1, Live 2, Raw], m_size = 2\<rparr>
       = Throws \<lparr>m_data = [Live 1, Live 0, Raw], m_size = 2\<rparr>
   \<and> valid \<lparr>m_data = [Live (1::int), Live 0, Raw], m_size = 2\<rparr>
   \<and> Vector_dtor \<lparr>m_data = [Live (1::int), Live 0, Raw], m_size = 2\<rparr> = Returns ()"
proof -
  have w: "valid \<lparr>m_data = [Live (1::int), Live 2, Raw], m_size = 2\<rparr>"
    by (simp add: valid_def Capacity_def is_Live_def is_Raw_def)
  have c: "Size \<lparr>m_data = [Live (1::int), Live 2, Raw], m_size = 2\<rparr>
       < Capacity \<lparr>m_data = [Live (1::int), Live 2, Raw], m_size = 2\<rparr>"
    by (simp add: Size_def Capacity_def)
  have i: "0 < Size \<lparr>m_data = [Live (1::int), Live 2, Raw], m_size = 2\<rparr>"
    by (simp add: Size_def)
  have m: "move_ctor (assign_throws_on 1) (last (elems \<lparr>m_data = [Live 1, Live 2, Raw], m_size = 2\<rparr>))
       = Some (2, 0)"
    by (simp add: assign_throws_on_def elems_def)
  have b: "move_backward (assign_throws_on 1) [Live 1, Live 0, Live 2] 0 1 2 = Throws [Live 1, Live 0, Live 2]"
    by code_simp
  have b': "move_backward (assign_throws_on 1)
              ((m_data \<lparr>m_data = [Live 1, Live 2, Raw], m_size = 2\<rparr>)
                 [m_size \<lparr>m_data = [Live (1::int), Live 2, Raw], m_size = 2\<rparr> - 1 := Live 0,
                  m_size \<lparr>m_data = [Live (1::int), Live 2, Raw], m_size = 2\<rparr> := Live 2])
              0 (m_size \<lparr>m_data = [Live (1::int), Live 2, Raw], m_size = 2\<rparr> - 1 - 0)
              (m_size \<lparr>m_data = [Live (1::int), Live 2, Raw], m_size = 2\<rparr>)
            = Throws [Live 1, Live 0, Live 2]"
    by code_simp
  have u: "\<lparr>m_data = [Live (1::int), Live 2, Raw], m_size = 2\<rparr>
             \<lparr>m_data := [Live 1, Live 0, Live 2][m_size \<lparr>m_data = [Live (1::int), Live 2, Raw], m_size = 2\<rparr> := Raw]\<rparr>
           = \<lparr>m_data = [Live 1, Live 0, Raw], m_size = 2\<rparr>"
    by simp
  from Emplace_shift_throws [OF w c i m b', of 9]
  have "Emplace (assign_throws_on 1) 0 (Some 9) \<lparr>m_data = [Live 1, Live 2, Raw], m_size = 2\<rparr>
       = Throws \<lparr>m_data = [Live 1, Live 0, Raw], m_size = 2\<rparr>
   \<and> valid \<lparr>m_data = [Live (1::int), Live 0, Raw], m_size = 2\<rparr>
   \<and> Vector_dtor \<lparr>m_data = [Live (1::int), Live 0, Raw], m_size = 2\<rparr> = Returns ()"
    unfolding u by blast
  with w c i m b show ?thesis by blast
qed

text \<open>
  C9 as stated fails: with the elements 1 and 2, capacity 3 and a move assignment that
  throws when 1 is assigned, \<^verbatim>\<open>Emplace\<close> at the front throws out of the shift, and
  afterwards the slot at the size holds no object: the handler has destroyed it.
\<close>

theorem Emplace_shift_throw_leaves_no_extra_slot:
  "move_backward (assign_throws_on 1) [Live 1, Live 0, Live 2] 0 1 2 = Throws [Live 1, Live 0, Live 2]
   \<and> Emplace (assign_throws_on 1) 0 (Some 9) \<lparr>m_data = [Live 1, Live 2, Raw], m_size = 2\<rparr>
       = Throws \<lparr>m_data = [Live 1, Live 0, Raw], m_size = 2\<rparr>
   \<and> slot_at [Live (1::int), Live 0, Raw] 2 = Raw
   \<and> Capacity \<lparr>m_data = [Live (1::int), Live 0, Raw], m_size = 2\<rparr> = 3"
  by code_simp

section \<open>The invariant along the calls\<close>

text \<open>
  The calls that keep the invariant, for every element type and as long as the byte
  count of the block asked for fits \<^verbatim>\<open>size_t\<close>: all of them when they return, and
  all of them when they throw except \<^verbatim>\<open>Emplace\<close> on the path that shifts in place,
  where the exit that breaks the invariant is. A call that stops at an \<^verbatim>\<open>assert\<close> or
  breaks a rule of object lifetime leaves no state to speak of.
\<close>

lemma shape_of_valid:
  fixes v :: "'a Vector" and d :: "'a slot list"
  assumes "valid v" "map kind d = map kind (m_data v)"
  shows "\<exists>zs. d = map Live zs @ replicate (Capacity v - m_size v) Raw \<and> length zs = m_size v"
proof -
  from valid_same_shape [OF assms(1), of "v\<lparr>m_data := d\<rparr>"] assms(2)
  have val: "valid (v\<lparr>m_data := d\<rparr>)" by simp
  from assms(2) have "length d = length (m_data v)"
    using length_map [of kind d] by simp
  with m_data_valid [OF val] length_elems [OF val] show ?thesis
    by (auto simp: Capacity_def Size_def)
qed

lemma valid_Vector_default: "valid Vector_default"
  by (simp add: valid_def Vector_default_def Capacity_def)

lemma Vector_default_vec: "Vector_default = vec [] 0"
  by (simp add: Vector_default_def vec_def)

lemma Vector_sized_valid:
  assumes "fits_size_t T n" "Vector_sized T n = Returns v"
  shows "valid v"
proof -
  from assms(2) have "RawMemory T n \<noteq> None"
    by (auto simp: Vector_sized_def split: option.splits)
  with RawMemory_fits [OF assms(1)] have b: "RawMemory T n = Some (replicate n Raw)"
    by simp
  have "uninitialized_value_construct_n T (replicate n Raw) 0 n
        = (case value_each T n of
             Some ds \<Rightarrow> Returns (map Live ds)
           | None \<Rightarrow> Throws (replicate n Raw))"
    using uninitialized_value_construct_n_vec [of T "[]" n "[]"]
    by (cases "value_each T n") simp_all
  with assms(2) b obtain ds where ds: "value_each T n = Some ds" and "v = \<lparr>m_data = map Live ds, m_size = n\<rparr>"
    by (cases "value_each T n") (auto simp: Vector_sized_def)
  with value_each_length [OF ds] have "v = vec ds 0"
    by (simp add: vec_def)
  then show ?thesis by simp
qed

lemma Vector_copy_compute:
  assumes "provides T (length xs)"
  shows "Vector_copy T (vec xs m)
   = (case those (map (copy_ctor T) xs) of Some ys \<Rightarrow> Returns (vec ys 0) | None \<Rightarrow> Throws ())"
proof -
  have "copy_construct_loop T (map Live xs @ replicate m Raw) 0 (replicate (length xs) Raw) 0 0 (length xs)
        = (case those (map (copy_ctor T) xs) of
             Some ys \<Rightarrow> Returns (map Live ys)
           | None \<Rightarrow> Throws (replicate (length xs) Raw))"
    using copy_construct_loop_compute [of T "[]" xs "replicate m Raw" "[]" "[]" "[]"]
    by (cases "those (map (copy_ctor T) xs)") simp_all
  then show ?thesis
    using RawMemory_provides [OF assms]
    by (cases "those (map (copy_ctor T) xs)")
      (auto simp: Vector_copy_def uninitialized_copy_n_def vec_def dest: those_length)
qed

lemma Vector_copy_valid:
  assumes "valid w" "fits_size_t T (Size w)" "Vector_copy T w = Returns v"
  shows "valid v"
proof -
  from valid_shape [OF assms(1)] obtain xs m where w: "w = vec xs m" by blast
  from assms(3) have "RawMemory T (m_size w) \<noteq> None"
    by (auto simp: Vector_copy_def split: option.splits)
  then obtain b where "RawMemory T (m_size w) = Some b" by auto
  from provides_of_fits [OF _ this] assms(2) w have "provides T (length xs)"
    by (simp add: Size_def)
  from assms(3) w Vector_copy_compute [OF this, of m] show ?thesis
    by (cases "those (map (copy_ctor T) xs)") auto
qed

lemma Vector_move_valid: "valid w \<Longrightarrow> valid (fst (Vector_move w)) \<and> valid (snd (Vector_move w))"
  by (simp add: Vector_move_def valid_def Capacity_def)

lemma Swap_valid: "valid v \<Longrightarrow> valid w \<Longrightarrow> valid (fst (Swap v w)) \<and> valid (snd (Swap v w))"
  by (simp add: Swap_def valid_def Capacity_def)

lemma Reserve_valid:
  assumes "valid v" "fits_size_t T n" "Reserve T n v = Returns v' \<or> Reserve T n v = Throws v'"
  shows "valid v'"
proof (cases "n \<le> Capacity v")
  case True
  with assms show ?thesis by (simp add: Reserve_def)
next
  case False
  from valid_shape [OF assms(1)] obtain xs m where v: "v = vec xs m" by blast
  obtain ys xs' ok where r: "relocate_each T xs = (ys, xs', ok)"
    by (cases "relocate_each T xs") auto
  from False v have lt: "length xs + m < n" by simp
  show ?thesis
  proof (cases "RawMemory T n")
    case None
    from False have "Capacity v < n" by simp
    from Reserve_no_memory [OF this None] assms(1,3) show ?thesis by auto
  next
    case (Some b)
    from Reserve_compute [OF lt provides_of_fits [OF assms(2) Some]] r assms(3) show ?thesis
      by (cases ok) (auto simp: v)
  qed
qed

lemma Resize_valid:
  assumes "valid v" "fits_size_t T n" "Resize T n v = Returns v' \<or> Resize T n v = Throws v'"
  shows "valid v'"
proof -
  from valid_shape [OF assms(1)] obtain xs m where v: "v = vec xs m" by blast
  consider (shrink) "n < length xs"
    | (within) "length xs \<le> n" "n \<le> length xs + m" | (beyond) "length xs + m < n"
    by linarith
  then show ?thesis
  proof cases
    case shrink
    then have ne: "drop n xs \<noteq> []" and l: "length (take n xs) = n" by simp_all
    from Resize_shrink [OF ne, of T "take n xs" m] l assms(3) show ?thesis
      by (auto simp: v)
  next
    case within
    then obtain k where k: "n = length xs + k" "k \<le> m"
      by (metis le_iff_add nat_add_left_cancel_le)
    from Resize_within [OF k(2), of T xs] k assms(3) show ?thesis
      by (cases "value_each T k") (auto simp: v)
  next
    case beyond
    show ?thesis
    proof (cases "RawMemory T n")
      case None
      from Resize_no_memory [OF beyond None] assms(3) show ?thesis
        by (auto simp: v)
    next
      case (Some b)
      obtain ys xs' ok where r: "relocate_each T xs = (ys, xs', ok)"
        by (cases "relocate_each T xs") auto
      from Resize_beyond [OF beyond provides_of_fits [OF assms(2) Some]] r assms(3) show ?thesis
        by (cases ok; cases "value_each T (n - length xs)") (auto simp: v)
    qed
  qed
qed

lemma EmplaceBack_valid:
  assumes "valid v" "fits_size_t T (max 1 (2 * Size v))"
    and "EmplaceBack T made v = Returns v' \<or> EmplaceBack T made v = Throws v'"
  shows "valid v'"
proof (cases "Size v < Capacity v")
  case True
  from valid_shape [OF assms(1)] obtain xs m where v: "v = vec xs m" by blast
  with True obtain k where k: "m = Suc k" by (cases m) (auto simp: Size_def)
  show ?thesis
  proof (cases made)
    case None
    with True assms(1,3) show ?thesis by (auto simp: EmplaceBack_def Size_def)
  next
    case (Some x)
    with EmplaceBack_spare [of T x xs k] assms(3) k show ?thesis
      by (auto simp: v)
  qed
next
  case False
  then have full: "Capacity v \<le> m_size v" by (simp add: Size_def)
  from valid_full [OF assms(1)] False have v: "v = vec (elems v) 0" by simp
  define xs where "xs = elems v"
  from v have v: "v = vec xs 0" by (simp add: xs_def)
  from assms(2) have f: "fits_size_t T (max 1 (2 * m_size v))"
    by (simp add: Size_def)
  note rq = request_fits [OF f]
  have ms: "m_size v = length xs" by (subst v) simp
  show ?thesis
  proof (cases "RawMemory T (max 1 (2 * m_size v))")
    case None
    with rq have "RawMemory T (if m_size v = 0 then 1 else m_size v * 2 mod 2 ^ 64) = None"
      by simp
    from EmplaceBack_no_memory [OF full this] assms(1,3) show ?thesis by auto
  next
    case (Some b)
    from provides_of_fits [OF f Some] have pr: "provides T (max 1 (2 * m_size v))" .
    show ?thesis
    proof (cases made)
      case None
      with full assms(1,3) RawMemory_provides [OF pr] show ?thesis
        unfolding EmplaceBack_def rq by auto
    next
      case (Some x)
      show ?thesis
      proof (cases "xs = []")
        case True
        with pr ms have "provides T 1" by simp
        from EmplaceBack_empty [OF this, of x] True assms(3) Some show ?thesis
          by (auto simp: v)
      next
        case False
        then have "max 1 (2 * length xs) = length xs * 2" by (cases xs) simp_all
        moreover from pr ms have "provides T (max 1 (2 * length xs))" by simp
        ultimately have p2: "provides T (length xs * 2)" by simp
        obtain ys xs' ok where r: "relocate_each T xs = (ys, xs', ok)"
          by (cases "relocate_each T xs") auto
        from EmplaceBack_full [OF False p2, of x] r assms(3) Some show ?thesis
          by (cases ok) (auto simp: v)
      qed
    qed
  qed
qed

lemma PopBack_valid:
  assumes "valid v" "PopBack v = Returns v'"
  shows "valid v'"
proof -
  from valid_shape [OF assms(1)] obtain xs m where v: "v = vec xs m" by blast
  from assms(2) v have "xs \<noteq> []" by (auto simp: PopBack_def vec_def)
  then have xs: "xs = butlast xs @ [last xs]" by simp
  have "destroy_at (map Live (butlast xs) @ Live (last xs) # replicate m Raw) (length (butlast xs))
        = Inr (map Live (butlast xs) @ Raw # replicate m Raw)"
    using destroy_at_mid [of "map Live (butlast xs)" "last xs" "replicate m Raw"] by simp
  moreover have "map Live xs = map Live (butlast xs) @ [Live (last xs)]"
    by (subst xs) simp
  ultimately have "PopBack (vec xs m) = Returns (vec (butlast xs) (Suc m))"
    using \<open>xs \<noteq> []\<close> by (simp add: PopBack_def vec_def)
  with assms(2) v show ?thesis by auto
qed

lemma move_range_Returns_shape:
  "move_range T buf first n d_first = Returns buf' \<Longrightarrow> map kind buf' = map kind buf"
proof (induction n arbitrary: buf first d_first)
  case 0
  then show ?case by simp
next
  case (Suc n)
  then show ?case
    by (auto split: outcome.splits dest: move_assign_at_Returns_shape)
qed

lemma move_range_Throws_shape:
  "move_range T buf first n d_first = Throws buf' \<Longrightarrow> map kind buf' = map kind buf"
proof (induction n arbitrary: buf first d_first)
  case 0
  then show ?case by simp
next
  case (Suc n)
  then show ?case
    by (auto split: outcome.splits dest: move_assign_at_Returns_shape move_assign_at_Throws_same)
qed

lemma copy_range_Returns_shape:
  "copy_range T src first n dst d_first = Returns dst' \<Longrightarrow> map kind dst' = map kind dst"
proof (induction n arbitrary: dst first d_first)
  case 0
  then show ?case by simp
next
  case (Suc n)
  then show ?case
    by (auto split: sum.splits option.splits dest!: obj_at_Inr simp: map_is_Live_update)
qed

lemma copy_range_Throws_shape:
  "copy_range T src first n dst d_first = Throws dst' \<Longrightarrow> map kind dst' = map kind dst"
proof (induction n arbitrary: dst first d_first)
  case 0
  then show ?case by simp
next
  case (Suc n)
  then show ?case
    by (auto split: sum.splits option.splits dest!: obj_at_Inr simp: map_is_Live_update)
qed

lemma Erase_valid:
  assumes "valid v" "Erase T i v = Returns v' \<or> Erase T i v = Throws v'"
  shows "valid v'"
proof -
  from assms(2) have i: "i < m_size v"
    by (auto simp: Erase_def Size_def split: if_splits)
  from assms(2) i consider
    (throws) d where "move_range T (m_data v) (i + 1) (m_size v - (i + 1)) i = Throws d" "v' = v\<lparr>m_data := d\<rparr>"
    | (returns) d d' where "move_range T (m_data v) (i + 1) (m_size v - (i + 1)) i = Returns d"
        "destroy_at d (m_size v - 1) = Inr d'" "v' = \<lparr>m_data = d', m_size = m_size v - 1\<rparr>"
    by (auto simp: Erase_def Size_def split: outcome.splits sum.splits)
  then show ?thesis
  proof cases
    case throws
    from valid_same_shape [OF assms(1), of v'] move_range_Throws_shape [OF throws(1)] throws(2)
    show ?thesis by simp
  next
    case returns
    from shape_of_valid [OF assms(1) move_range_Returns_shape [OF returns(1)]] obtain zs
      where d: "d = map Live zs @ replicate (Capacity v - m_size v) Raw" and l: "length zs = m_size v"
      by blast
    with i have "zs \<noteq> []" by auto
    then have zs: "zs = butlast zs @ [last zs]" by simp
    have "map Live zs = map Live (butlast zs) @ [Live (last zs)]"
      by (subst zs) simp
    with d have d2: "d = map Live (butlast zs) @ Live (last zs) # replicate (Capacity v - m_size v) Raw"
      by simp
    have "destroy_at d (length (butlast zs)) = Inr (map Live (butlast zs) @ Raw # replicate (Capacity v - m_size v) Raw)"
      unfolding d2
      using destroy_at_mid [of "map Live (butlast zs)" "last zs" "replicate (Capacity v - m_size v) Raw"]
      by simp
    with returns(2) l have "d' = map Live (butlast zs) @ Raw # replicate (Capacity v - m_size v) Raw"
      by simp
    with returns(3) l have "v' = vec (butlast zs) (Suc (Capacity v - m_size v))"
      by (simp add: vec_def)
    then show ?thesis by simp
  qed
qed

text \<open>
  \<^verbatim>\<open>Emplace\<close> with a slot to spare and a position before the end, step by step: the move
  construction of the last element into the slot at \<^verbatim>\<open>end()\<close>, the shift with its
  handler, the assignment of \<^verbatim>\<open>new_value\<close>.
\<close>

lemma Emplace_in_place_steps:
  assumes "valid v" "Size v < Capacity v" "i < Size v"
  shows "move_ctor T (last (elems v)) = None \<Longrightarrow> Emplace T i (Some x) v = Throws v"
    and "move_ctor T (last (elems v)) = Some (y, l') \<Longrightarrow>
         Emplace T i (Some x) v =
           (case move_backward T ((m_data v)[m_size v - 1 := Live l', m_size v := Live y])
                   i (m_size v - 1 - i) (m_size v) of
              Throws d' \<Rightarrow>
                (case destroy_at d' (m_size v) of
                   Inl k \<Rightarrow> Violation k
                 | Inr d'' \<Rightarrow> Throws (v\<lparr>m_data := d''\<rparr>))
            | Returns d' \<Rightarrow>
                (case obj_at d' i of
                   Inl k \<Rightarrow> Violation k
                 | Inr t \<Rightarrow>
                     (case move_assign T t x of
                        None \<Rightarrow> Throws (v\<lparr>m_data := d'\<rparr>)
                      | Some (t', nv') \<Rightarrow> Returns (v\<lparr>m_data := d'[i := Live t'], m_size := m_size v + 1\<rparr>)))
            | Aborts \<Rightarrow> Aborts
            | Violation k \<Rightarrow> Violation k)"
proof -
  define n dat where "n = m_size v" and "dat = m_data v"
  define k where "k = Capacity v - m_size v"
  from assms(2,3) have n: "0 < n" "n < length dat" "i < n"
    by (simp_all add: n_def dat_def Size_def Capacity_def)
  have dat: "dat = map Live (elems v) @ replicate k Raw"
    using m_data_valid [OF assms(1)] by (simp add: dat_def k_def)
  have len: "length (elems v) = n"
    using length_elems [OF assms(1)] by (simp add: n_def Size_def)
  from n len have ne: "elems v \<noteq> []" by auto
  have lst: "dat ! (n - 1) = Live (last (elems v))"
    using n len ne by (simp add: dat nth_append last_conv_nth)
  have raw: "dat ! n = Raw"
    using n len by (simp add: dat nth_append)
  have o: "obj_at dat (n - 1) = Inr (last (elems v))"
    using n lst by (simp add: obj_at_def slot_at_def)
  have c: "construct_at (dat[n - 1 := Live l']) n y = Inr (dat[n - 1 := Live l', n := Live y])"
    using n raw by (simp add: construct_at_def)
  have cond: "\<not> \<not> i \<le> n" "\<not> length dat \<le> n" "i \<noteq> n"
    using n by simp_all
  show "Emplace T i (Some x) v = Throws v" if "move_ctor T (last (elems v)) = None"
    unfolding Emplace_def Capacity_def n_def [symmetric] dat_def [symmetric]
    by (simp only: cond o that if_True if_False not_False_eq_True option.case sum.case outcome.case)
  show "Emplace T i (Some x) v =
           (case move_backward T ((m_data v)[m_size v - 1 := Live l', m_size v := Live y])
                   i (m_size v - 1 - i) (m_size v) of
              Throws d' \<Rightarrow>
                (case destroy_at d' (m_size v) of
                   Inl k \<Rightarrow> Violation k
                 | Inr d'' \<Rightarrow> Throws (v\<lparr>m_data := d''\<rparr>))
            | Returns d' \<Rightarrow>
                (case obj_at d' i of
                   Inl k \<Rightarrow> Violation k
                 | Inr t \<Rightarrow>
                     (case move_assign T t x of
                        None \<Rightarrow> Throws (v\<lparr>m_data := d'\<rparr>)
                      | Some (t', nv') \<Rightarrow> Returns (v\<lparr>m_data := d'[i := Live t'], m_size := m_size v + 1\<rparr>)))
            | Aborts \<Rightarrow> Aborts
            | Violation k \<Rightarrow> Violation k)"
    if mc: "move_ctor T (last (elems v)) = Some (y, l')"
    unfolding Emplace_def Capacity_def n_def [symmetric] dat_def [symmetric]
    apply (simp only: cond o mc c if_True if_False not_False_eq_True option.case sum.case prod.case)
    apply (cases "move_backward T (dat[n - 1 := Live l', n := Live y]) i (n - 1 - i) n")
       apply (simp_all add: n_def split: sum.splits option.splits)
    done
qed

lemma valid_slots:
  assumes "valid v"
  shows "i < m_size v \<Longrightarrow> is_Live (m_data v ! i)"
    and "m_size v \<le> i \<Longrightarrow> i < Capacity v \<Longrightarrow> m_data v ! i = Raw"
proof -
  define xs k where "xs = elems v" and "k = Capacity v - m_size v"
  have d: "m_data v = map Live xs @ replicate k Raw" and l: "length xs = m_size v"
    using m_data_valid [OF assms] length_elems [OF assms] by (simp_all add: xs_def k_def Size_def)
  show "is_Live (m_data v ! i)" if "i < m_size v"
    using that l by (simp add: d nth_append)
  show "m_data v ! i = Raw" if "m_size v \<le> i" "i < Capacity v"
    using that l by (simp add: d nth_append Capacity_def)
qed

lemma tail_built_shape:
  assumes "valid v" "m_size v < Capacity v" "0 < m_size v"
  shows "map kind ((m_data v)[m_size v - 1 := Live l', m_size v := Live y])
         = (map kind (m_data v))[m_size v := Live ()]"
  using assms valid_slots(1) [OF assms(1), of "m_size v - 1"]
  by (intro nth_equalityI) (auto simp: nth_list_update Capacity_def is_Live_kind)

lemma tail_destroyed_shape:
  assumes "valid v" "m_size v < Capacity v"
  shows "(map kind (m_data v))[m_size v := Live (), m_size v := Raw] = map kind (m_data v)"
  using assms valid_slots(2) [OF assms(1), of "m_size v"]
  by (intro nth_equalityI) (auto simp: nth_list_update Capacity_def)

lemma valid_grown:
  fixes v :: "'a Vector" and d :: "'a slot list"
  assumes "valid v" "m_size v < Capacity v"
    and "map kind d = (map kind (m_data v))[m_size v := Live ()]"
  shows "valid (v\<lparr>m_data := d, m_size := m_size v + 1\<rparr>)"
proof -
  define L n where "L = map kind (m_data v)" and "n = m_size v"
  have a: "n \<le> length L" "\<forall>b\<in>set (take n L). b = Live ()" "\<forall>b\<in>set (drop n L). b = Raw"
    using assms(1) unfolding valid_by_shape L_def n_def by auto
  from assms(2) have lt: "n < length L"
    by (simp add: L_def n_def Capacity_def)
  have t: "take (Suc n) (L[n := Live ()]) = take n L @ [Live ()]"
    using lt by (simp add: take_Suc_conv_app_nth)
  have dr: "drop (Suc n) (L[n := Live ()]) = drop (Suc n) L"
    by simp
  have "set (drop (Suc n) L) \<subseteq> set (drop n L)"
    by (rule set_drop_subset_set_drop) simp
  with a t dr lt assms(3) show ?thesis
    by (auto simp: valid_by_shape L_def [symmetric] n_def [symmetric])
qed

lemma Emplace_in_place_Returns_valid:
  assumes "valid v" "Size v < Capacity v" "i < Size v" "Emplace T i (Some x) v = Returns v'"
  shows "valid v'"
proof (cases "move_ctor T (last (elems v))")
  case None
  from Emplace_in_place_steps(1) [OF assms(1-3) None, of x] assms(4) show ?thesis by simp
next
  case (Some p)
  obtain y l' where p: "p = (y, l')" by (cases p)
  from Emplace_in_place_steps(2) [OF assms(1-3), of T y l' x] Some p assms(4)
  obtain d' t t' nv' where
    mb: "move_backward T ((m_data v)[m_size v - 1 := Live l', m_size v := Live y])
           i (m_size v - 1 - i) (m_size v) = Returns d'"
    and o: "obj_at d' i = Inr t" and v': "v' = v\<lparr>m_data := d'[i := Live t'], m_size := m_size v + 1\<rparr>"
    by (auto split: outcome.splits sum.splits option.splits)
  from obj_at_Inr [OF o] have "map kind (d'[i := Live t']) = map kind d'"
    by (simp add: map_is_Live_update)
  also have "\<dots> = (map kind (m_data v))[m_size v := Live ()]"
    using move_backward_Returns_shape [OF mb] tail_built_shape [OF assms(1), of l' y] assms(2,3)
    by (simp add: Size_def)
  finally show ?thesis
    unfolding v' using valid_grown [OF assms(1)] assms(2) by (simp add: Size_def)
qed

lemma Emplace_in_place_Throws:
  assumes "valid v" "Size v < Capacity v" "i < Size v" "Emplace T i (Some x) v = Throws v'"
  shows "valid v'
       \<or> (\<exists>y l' d' t. move_ctor T (last (elems v)) = Some (y, l')
            \<and> move_backward T ((m_data v)[m_size v - 1 := Live l', m_size v := Live y])
                 i (m_size v - 1 - i) (m_size v) = Returns d'
            \<and> obj_at d' i = Inr t \<and> move_assign T t x = None \<and> v' = v\<lparr>m_data := d'\<rparr>)"
proof (cases "move_ctor T (last (elems v))")
  case None
  from Emplace_in_place_steps(1) [OF assms(1-3) None, of x] assms(1,4) show ?thesis by simp
next
  case (Some p)
  obtain y l' where p: "p = (y, l')" by (cases p)
  note st = Emplace_in_place_steps(2) [OF assms(1-3), of T y l' x]
  show ?thesis
  proof (cases "move_backward T ((m_data v)[m_size v - 1 := Live l', m_size v := Live y])
                  i (m_size v - 1 - i) (m_size v)")
    case (Throws d')
    with st Some p assms(4) obtain d'' where da: "destroy_at d' (m_size v) = Inr d''"
      and v': "v' = v\<lparr>m_data := d''\<rparr>"
      by (auto split: sum.splits)
    from da have "d'' = d'[m_size v := Raw]"
      by (auto simp: destroy_at_def split: slot.splits)
    then have "map kind d'' = (map kind d')[m_size v := Raw]"
      by (simp add: map_update)
    also have "\<dots> = map kind (m_data v)"
      using move_backward_Throws_shape [OF Throws] tail_built_shape [OF assms(1), of l' y]
        tail_destroyed_shape [OF assms(1)] assms(2,3)
      by (simp add: Size_def)
    finally show ?thesis
      using valid_same_shape [OF assms(1), of v'] v' by simp
  next
    case (Returns d')
    with st Some p assms(4) show ?thesis
      by (auto split: sum.splits option.splits)
  next
    case Aborts
    with st Some p assms(4) show ?thesis by simp
  next
    case (Violation k)
    with st Some p assms(4) show ?thesis by simp
  qed
qed

lemma Emplace_nothing_made:
  "Emplace T i None v = Returns v' \<Longrightarrow> False"
  "Emplace T i None v = Throws v' \<Longrightarrow> v' = v"
  by (auto simp: Emplace_def Deallocate_def split: if_splits option.splits)

lemma Emplace_full_valid:
  assumes "valid v" "Capacity v \<le> Size v" "fits_size_t T (max 1 (2 * Size v))"
    and "Emplace T i (Some x) v = Returns v' \<or> Emplace T i (Some x) v = Throws v'"
  shows "valid v'"
proof -
  from assms(4) have i: "i \<le> m_size v"
    by (auto simp: Emplace_def split: if_splits)
  from assms(2) have full: "Capacity v \<le> m_size v" by (simp add: Size_def)
  define xs1 xs2 where "xs1 = take i (elems v)" and "xs2 = drop i (elems v)"
  from valid_full [OF assms(1,2)] have v: "v = vec (xs1 @ xs2) 0"
    by (simp add: xs1_def xs2_def)
  from i length_elems [OF assms(1)] have il: "i = length xs1"
    by (simp add: xs1_def Size_def)
  from assms(3) have f: "fits_size_t T (max 1 (2 * m_size v))"
    by (simp add: Size_def)
  note rq = request_fits [OF f]
  have ms: "m_size v = length (xs1 @ xs2)" by (subst v) simp
  show ?thesis
  proof (cases "RawMemory T (max 1 (2 * m_size v))")
    case None
    with rq have "RawMemory T (if m_size v = 0 then 1 else m_size v * 2 mod 2 ^ 64) = None"
      by simp
    from Emplace_no_memory [OF full i this] assms(1,4) show ?thesis by auto
  next
    case (Some b)
    from provides_of_fits [OF f Some] have pr: "provides T (max 1 (2 * m_size v))" .
    show ?thesis
    proof (cases "xs1 @ xs2 = []")
      case True
      then have e: "xs1 = []" "xs2 = []" by simp_all
      with pr ms have "provides T 1" by simp
      from Emplace_empty [OF this, of x] e
      have "Emplace T (length xs1) (Some x) (vec (xs1 @ xs2) 0) = Returns (vec [x] 0)"
        by simp
      then have "Emplace T i (Some x) v = Returns (vec [x] 0)"
        by (subst v, subst il)
      with assms(4) show ?thesis by auto
    next
      case False
      from False have "max 1 (2 * length (xs1 @ xs2)) = length (xs1 @ xs2) * 2"
        by (cases "xs1 @ xs2") simp_all
      with pr ms have p2: "provides T (length (xs1 @ xs2) * 2)" by simp
      obtain ys1 xs1' ok1 where e1: "relocate_each T xs1 = (ys1, xs1', ok1)"
        by (cases "relocate_each T xs1") auto
      obtain ys2 xs2' ok2 where e2: "relocate_each T xs2 = (ys2, xs2', ok2)"
        by (cases "relocate_each T xs2") auto
      have "Emplace T i (Some x) v = Emplace T (length xs1) (Some x) (vec (xs1 @ xs2) 0)"
        by (subst v, subst il) (rule refl)
      with Emplace_full [OF False p2, of x] e1 e2 assms(4) show ?thesis
        by (cases ok1; cases ok2) auto
    qed
  qed
qed

lemma Emplace_end_valid:
  assumes "valid v" "Size v < Capacity v" "Emplace T (Size v) (Some x) v = Returns v'"
  shows "valid v'"
proof -
  from assms(2) obtain k where k: "Capacity v - m_size v = Suc k"
    by (cases "Capacity v - m_size v") (auto simp: Size_def)
  from valid_shape [OF assms(1)] k have v: "v = vec (elems v) (Suc k)" by simp
  have "Emplace T (Size v) (Some x) v = Emplace T (length (elems v)) (Some x) (vec (elems v) (Suc k))"
    using length_elems [OF assms(1)] by (subst v) simp
  with Emplace_spare_end [of T "elems v" x k] assms(3) show ?thesis by auto
qed

lemma Emplace_end_never_Throws:
  "valid v \<Longrightarrow> Size v < Capacity v \<Longrightarrow> Emplace T (Size v) (Some x) v \<noteq> Throws v'"
proof -
  assume a: "valid v" "Size v < Capacity v"
  from a(2) obtain k where k: "Capacity v - m_size v = Suc k"
    by (cases "Capacity v - m_size v") (auto simp: Size_def)
  from valid_shape [OF a(1)] k have v: "v = vec (elems v) (Suc k)" by simp
  have "Emplace T (Size v) (Some x) v = Emplace T (length (elems v)) (Some x) (vec (elems v) (Suc k))"
    using length_elems [OF a(1)] by (subst v) simp
  with Emplace_spare_end [of T "elems v" x k] show ?thesis by simp
qed

lemma Emplace_Returns_valid:
  assumes "valid v" "fits_size_t T (max 1 (2 * Size v))" "Emplace T i made v = Returns v'"
  shows "valid v'"
proof (cases made)
  case None
  with assms(3) Emplace_nothing_made(1) [of T i v v'] show ?thesis by simp
next
  case (Some x)
  from assms(3) have i: "i \<le> Size v"
    by (auto simp: Emplace_def Size_def split: if_splits)
  consider "Capacity v \<le> Size v" | "Size v < Capacity v" "i = Size v" | "Size v < Capacity v" "i < Size v"
    using i by linarith
  then show ?thesis
  proof cases
    case 1
    from Emplace_full_valid [OF assms(1) 1 assms(2), of i x] assms(3) Some show ?thesis by simp
  next
    case 2
    from Emplace_end_valid [OF assms(1) 2(1), of T x] assms(3) Some 2(2) show ?thesis by simp
  next
    case 3
    from Emplace_in_place_Returns_valid [OF assms(1) 3, of T x] assms(3) Some show ?thesis by simp
  qed
qed

lemma Emplace_Throws_valid:
  assumes "valid v" "fits_size_t T (max 1 (2 * Size v))" "Emplace T i made v = Throws v'"
    and "made = None \<or> Capacity v \<le> Size v \<or> i = Size v"
  shows "valid v'"
proof (cases made)
  case None
  with assms(1,3) Emplace_nothing_made(2) [of T i v v'] show ?thesis by simp
next
  case (Some x)
  show ?thesis
  proof (cases "Capacity v \<le> Size v")
    case True
    from Emplace_full_valid [OF assms(1) True assms(2), of i x] assms(3) Some show ?thesis by simp
  next
    case False
    with assms(4) Some have "Size v < Capacity v" "i = Size v" by simp_all
    with Emplace_end_never_Throws [OF assms(1), of T x v'] assms(3) Some show ?thesis by simp
  qed
qed

lemma Vector_eta [simp]: "\<lparr>m_data = m_data a, m_size = m_size a\<rparr> = (a :: 'a Vector)"
  by simp

lemma copy_assignment_valid:
  assumes "valid v" "valid w" "fits_size_t T (Size w)"
    and "copy_assignment T v (Some w) = Returns v' \<or> copy_assignment T v (Some w) = Throws v'"
  shows "valid v'"
proof -
  define n nw k where "n = m_size v" and "nw = m_size w" and "k = Capacity v - m_size v"
  consider (fresh) "\<not> nw \<le> Capacity v" | (grow) "nw \<le> Capacity v" "n \<le> nw"
    | (shrink) "nw \<le> Capacity v" "\<not> n \<le> nw"
    by blast
  then show ?thesis
  proof cases
    case fresh
    show ?thesis
    proof (cases "Vector_copy T w")
      case (Returns oc)
      with fresh assms(4) Vector_dtor_valid [OF assms(1)] have "v' = oc"
        by (auto simp: copy_assignment_def nw_def Swap_def)
      with Vector_copy_valid [OF assms(2,3) Returns] show ?thesis by simp
    next
      case (Throws u)
      with fresh assms(1,4) show ?thesis
        by (auto simp: copy_assignment_def nw_def)
    next
      case Aborts
      with fresh assms(4) show ?thesis
        by (auto simp: copy_assignment_def nw_def)
    next
      case (Violation x)
      with fresh assms(4) show ?thesis
        by (auto simp: copy_assignment_def nw_def)
    qed
  next
    case grow
    show ?thesis
    proof (cases "copy_range T (m_data w) 0 n (m_data v) 0")
      case (Returns d)
      from shape_of_valid [OF assms(1) copy_range_Returns_shape [OF Returns]] obtain zs
        where d: "d = map Live zs @ replicate k Raw" and lz: "length zs = n"
        by (auto simp: k_def n_def)
      define wx kw where "wx = elems w" and "kw = Capacity w - m_size w"
      have dw: "m_data w = map Live wx @ replicate kw Raw" and lw: "length wx = nw"
        using m_data_valid [OF assms(2)] length_elems [OF assms(2)]
        by (simp_all add: wx_def kw_def nw_def Size_def)
      from grow have le: "nw - n \<le> k"
        by (simp add: k_def n_def)
      have src: "m_data w = map Live (take n wx) @ map Live (drop n wx) @ replicate kw Raw"
        unfolding dw by (simp flip: map_append)
      have dst: "d = map Live zs @ map Live [] @ replicate (length (drop n wx)) Raw @ replicate (k - (nw - n)) Raw"
        unfolding d using le lw by (simp flip: replicate_add)
      have dst2: "map Live zs @ replicate (nw - n) Raw @ replicate (k - (nw - n)) Raw = d"
        unfolding d using le by (simp flip: replicate_add)
      have ln: "length (map Live (take n wx)) = n" "length (drop n wx) = nw - n" "length (map Live zs) = n"
        using lw lz grow by simp_all
      have u: "uninitialized_copy_n T (m_data w) n (nw - n) d n
               = (case those (map (copy_ctor T) (drop n wx)) of
                    Some ys \<Rightarrow> Returns (map Live zs @ map Live ys @ replicate (k - (nw - n)) Raw)
                  | None \<Rightarrow> Throws d)"
        using copy_construct_loop_compute [of T "map Live (take n wx)" "drop n wx" "replicate kw Raw"
            "map Live zs" "[]" "replicate (k - (nw - n)) Raw"]
        unfolding uninitialized_copy_n_def src [symmetric] dst [symmetric] ln
        by (cases "those (map (copy_ctor T) (drop n wx))") (simp_all add: dst2)
      show ?thesis
      proof (cases "those (map (copy_ctor T) (drop n wx))")
        case None
        with u Returns grow assms(4) have "v' = v\<lparr>m_data := d\<rparr>"
          by (auto simp: copy_assignment_def nw_def [symmetric] n_def [symmetric])
        with valid_same_shape [OF assms(1), of v'] copy_range_Returns_shape [OF Returns]
        show ?thesis by simp
      next
        case (Some ys)
        with u Returns grow assms(4)
        have "v' = \<lparr>m_data = map Live zs @ map Live ys @ replicate (k - (nw - n)) Raw, m_size = nw\<rparr>"
          by (auto simp: copy_assignment_def nw_def [symmetric] n_def [symmetric])
        moreover from those_length [OF Some] ln lz grow have "length (zs @ ys) = nw"
          by simp
        ultimately have "v' = vec (zs @ ys) (k - (nw - n))"
          by (simp add: vec_def)
        then show ?thesis by simp
      qed
    next
      case (Throws d)
      with grow assms(4) have "v' = v\<lparr>m_data := d\<rparr>"
        by (auto simp: copy_assignment_def nw_def [symmetric] n_def [symmetric])
      with valid_same_shape [OF assms(1), of v'] copy_range_Throws_shape [OF Throws]
      show ?thesis by simp
    next
      case Aborts
      with grow assms(4) show ?thesis
        by (auto simp: copy_assignment_def nw_def [symmetric] n_def [symmetric])
    next
      case (Violation x)
      with grow assms(4) show ?thesis
        by (auto simp: copy_assignment_def nw_def [symmetric] n_def [symmetric])
    qed
  next
    case shrink
    show ?thesis
    proof (cases "copy_range T (m_data w) 0 nw (m_data v) 0")
      case (Returns d)
      from shape_of_valid [OF assms(1) copy_range_Returns_shape [OF Returns]] obtain zs
        where d: "d = map Live zs @ replicate k Raw" and lz: "length zs = n"
        by (auto simp: k_def n_def)
      have "destroy_n (map Live (take nw zs) @ map Live (drop nw zs) @ replicate k Raw)
              (length (map Live (take nw zs))) (length (drop nw zs))
            = Inr (map Live (take nw zs) @ replicate (length (drop nw zs)) Raw @ replicate k Raw)"
        by (rule destroy_n_live)
      moreover have "map Live (take nw zs) @ map Live (drop nw zs) @ replicate k Raw = d"
        unfolding d by (simp flip: map_append)
      moreover have "length (map Live (take nw zs)) = nw" "length (drop nw zs) = n - nw"
        using lz shrink by simp_all
      ultimately have dn: "destroy_n d nw (n - nw)
            = Inr (map Live (take nw zs) @ replicate (n - nw) Raw @ replicate k Raw)"
        by simp
      with Returns shrink assms(4)
      have "v' = \<lparr>m_data = map Live (take nw zs) @ replicate (n - nw) Raw @ replicate k Raw, m_size = nw\<rparr>"
        by (auto simp: copy_assignment_def nw_def [symmetric] n_def [symmetric])
      moreover have "length (take nw zs) = nw" using lz shrink by simp
      ultimately have "v' = vec (take nw zs) (n - nw + k)"
        by (simp add: vec_def replicate_add)
      then show ?thesis by simp
    next
      case (Throws d)
      with shrink assms(4) have "v' = v\<lparr>m_data := d\<rparr>"
        by (auto simp: copy_assignment_def nw_def [symmetric] n_def [symmetric])
      with valid_same_shape [OF assms(1), of v'] copy_range_Throws_shape [OF Throws]
      show ?thesis by simp
    next
      case Aborts
      with shrink assms(4) show ?thesis
        by (auto simp: copy_assignment_def nw_def [symmetric] n_def [symmetric])
    next
      case (Violation x)
      with shrink assms(4) show ?thesis
        by (auto simp: copy_assignment_def nw_def [symmetric] n_def [symmetric])
    qed
  qed
qed

lemma reachable_valid: "reachable T v \<Longrightarrow> valid v"
proof (induction rule: reachable.induct)
  case by_default
  show ?case by (rule valid_Vector_default)
next
  case (by_size n v)
  then show ?case by (rule Vector_sized_valid)
next
  case (by_copy w v)
  then show ?case by (blast intro: Vector_copy_valid)
next
  case (by_move w)
  then show ?case by (simp add: Vector_move_valid)
next
  case (moved_from w)
  then show ?case by (simp add: Vector_move_valid)
next
  case (swapped v w)
  then show ?case by (simp add: Swap_valid)
next
  case (move_assigned v w)
  then show ?case by (simp add: move_assignment_def Swap_valid)
next
  case (move_assigned_from v w)
  then show ?case by (simp add: move_assignment_def Swap_valid)
next
  case (copy_assigned v w v')
  then show ?case by (blast intro: copy_assignment_valid)
next
  case (reserved v n v')
  then show ?case by (blast intro: Reserve_valid)
next
  case (resized v n v')
  then show ?case by (blast intro: Resize_valid)
next
  case (emplaced_back v made v')
  then show ?case by (blast intro: EmplaceBack_valid)
next
  case (popped v v')
  then show ?case by (blast intro: PopBack_valid)
next
  case (emplaced v i made v')
  then show ?case by (blast intro: Emplace_Returns_valid)
next
  case (emplace_thrown v i made v')
  then show ?case by (blast intro: Emplace_Throws_valid)
next
  case (erased v i v')
  then show ?case by (blast intro: Erase_valid)
qed


subsection \<open>The exit that breaks the invariant\<close>

text \<open>
  C4 at a failing input. An empty vector reserves 3 and receives 1 and 2; then 9 is
  inserted at the front, for a type whose move assignment throws when 9 is assigned.
  The last element is move-constructed into the slot at \<^verbatim>\<open>end()\<close>, the shift succeeds,
  and the assignment of \<^verbatim>\<open>new_value\<close>, which is outside the \<^verbatim>\<open>try\<close> block, throws.
  The size is still 2 and slot 2 holds an object: the invariant is broken, and the
  destructor of the vector releases the block with that object alive in it.
\<close>

theorem Emplace_final_assignment_throw_breaks_invariant:
  "then_call (then_call (then_call (Reserve (assign_throws_on 9) 3 Vector_default)
       (PushBack (assign_throws_on 9) 1)) (PushBack (assign_throws_on 9) 2)) (Insert (assign_throws_on 9) 0 9)
     = Throws \<lparr>m_data = [Live 0, Live 1, Live 2], m_size = 2\<rparr>
   \<and> \<not> valid \<lparr>m_data = [Live (0::int), Live 1, Live 2], m_size = 2\<rparr>
   \<and> slot_at [Live (0::int), Live 1, Live 2] 2 = Live 2
   \<and> Vector_dtor \<lparr>m_data = [Live (0::int), Live 1, Live 2], m_size = 2\<rparr> = Violation Release_With_Objects"
  by code_simp

end
